theory Spec2Isabelle
  imports Complex_Main "HOL-Library.Word" "HOL-Library.Multiset" "HOL-Library.Log_Nat"
begin

unbundle bit_operations_syntax

section \<open>Data model\<close>

text \<open>
  The exceptions the functions of \<^verbatim>\<open>audiocraft/utils/utils.py\<close> can raise, either by
  their own \<^verbatim>\<open>assert\<close> statements or out of the Python and tensor-library primitives
  they call.
\<close>

datatype error =
    AssertionError
  | IndexError
  | RuntimeError
  | UnicodeEncodeError
  | ValueError
  | ZeroDivisionError

text \<open>
  A tensor is its shape and its elements in row-major order.  A tensor is well formed
  when it holds as many elements as its shape announces.
\<close>

record 'a tensor =
  shape :: "nat list"
  data :: "'a list"

definition wf_tensor :: "'a tensor \<Rightarrow> bool" where
  "wf_tensor t \<longleftrightarrow> length (data t) = prod_list (shape t)"

text \<open>
  The floating-point types of a tensor.  In the cross entropy floating-point numbers are
  idealised as real numbers: the conversion \<open>to_dtype\<close> keeps the value, and rounding,
  overflow and NaN are not part of that model.
\<close>

datatype dtype = Float16 | BFloat16 | Float32 | Float64

definition to_dtype :: "dtype \<Rightarrow> real \<Rightarrow> real" where
  "to_dtype dt x = x"

subsection \<open>Rounding to a floating-point type\<close>

text \<open>
  \<open>sample_top_p\<close> compares a difference of rounded sums with a threshold, so the model
  of its arithmetic rounds as IEEE 754 does.  A type has \<open>precision\<close> significant bits,
  the implicit leading bit included, and normal numbers from the binary exponent \<open>emin\<close>
  on; below it the subnormal numbers keep the spacing of the smallest normal ones.
\<close>

fun precision :: "dtype \<Rightarrow> nat" where
  "precision Float16 = 11"
| "precision BFloat16 = 8"
| "precision Float32 = 24"
| "precision Float64 = 53"

fun emin :: "dtype \<Rightarrow> int" where
  "emin Float16 = - 14"
| "emin BFloat16 = - 126"
| "emin Float32 = - 126"
| "emin Float64 = - 1022"

text \<open>
  The binary exponent of a positive number: the \<open>e\<close> with \<open>2\<^sup>e \<le> x < 2\<^sup>e\<^sup>+\<^sup>1\<close>, computed
  from the bit length of the integer part of \<open>x\<close> or of \<open>1 / x\<close>.
\<close>

definition ilog2 :: "real \<Rightarrow> int" where
  "ilog2 x = (if 1 \<le> x then bitlen \<lfloor>x\<rfloor> - 1 else - bitlen (\<lceil>1 / x\<rceil> - 1))"

text \<open>The nearest integer, a tie going to the even one.\<close>

definition round_even :: "real \<Rightarrow> int" where
  "round_even y =
     (let n = \<lfloor>y\<rfloor>; d = y - of_int n
      in if d < 1 / 2 then n else if 1 / 2 < d then n + 1 else if even n then n else n + 1)"

text \<open>
  The spacing of the numbers of a type around \<open>x \<noteq> 0\<close>, and the rounding of a real
  number to the type: to the nearest multiple of the spacing, a tie to the even multiple.
  Overflow is not modelled: the exponent has no upper bound, so a number beyond the
  largest finite one of the type is rounded like any other instead of becoming an
  infinity.  The numbers of the type are the fixed points of the rounding.
\<close>

definition ulp :: "dtype \<Rightarrow> real \<Rightarrow> real" where
  "ulp dt x = 2 powi (max (ilog2 \<bar>x\<bar>) (emin dt) - int (precision dt) + 1)"

definition float_round :: "dtype \<Rightarrow> real \<Rightarrow> real" where
  "float_round dt x = (if x = 0 then 0 else of_int (round_even (x / ulp dt x)) * ulp dt x)"

definition is_float :: "dtype \<Rightarrow> real \<Rightarrow> bool" where
  "is_float dt x \<longleftrightarrow> float_round dt x = x"

text \<open>The smallest positive number of a type, a subnormal one.\<close>

definition smallest_positive :: "dtype \<Rightarrow> real" where
  "smallest_positive dt = 2 powi (emin dt - int (precision dt) + 1)"

section \<open>Tensor-library primitives\<close>

text \<open>
  \<^verbatim>\<open>torch.split(x, n)\<close> along the first dimension: consecutive pieces of \<open>n\<close> elements,
  the last one shorter when the length is not a multiple of \<open>n\<close>.
\<close>

function split_size :: "nat \<Rightarrow> 'a list \<Rightarrow> 'a list list" where
  "split_size n xs =
     (if n = 0 \<or> xs = [] then [] else take n xs # split_size n (drop n xs))"
  by pat_completeness auto
termination
  by (relation "measure (\<lambda>(n, xs). length xs)") auto

declare split_size.simps [simp del]

text \<open>
  \<^verbatim>\<open>torch.chunk(x, chunks)\<close> along the first dimension: pieces of
  \<open>ceil (length / chunks)\<close> elements, so fewer than \<open>chunks\<close> pieces may come back; an
  empty input gives \<open>chunks\<close> empty pieces.
\<close>

definition chunk :: "'a list \<Rightarrow> nat \<Rightarrow> 'a list list" where
  "chunk xs chunks =
     (let size = (length xs + chunks - 1) div chunks
      in if size = 0 then replicate chunks [] else split_size size xs)"

text \<open>
  \<^verbatim>\<open>t.view(-1, t.shape[-1])\<close>: the rows of a tensor along its last dimension.  Reading
  \<^verbatim>\<open>shape[-1]\<close> of a zero-dimensional tensor raises IndexError, and a tensor without
  elements cannot be viewed as \<^verbatim>\<open>(-1, 0)\<close>.
\<close>

definition view_rows :: "'a tensor \<Rightarrow> error + 'a list list" where
  "view_rows t =
     (if shape t = [] then Inl IndexError
      else if last (shape t) = 0 then Inl RuntimeError
      else Inr (split_size (last (shape t)) (data t)))"

text \<open>\<^verbatim>\<open>torch.where(cond, x, fill)\<close> with a one-element \<open>fill\<close> tensor that broadcasts.\<close>

definition where_fill :: "bool list \<Rightarrow> 'a list \<Rightarrow> 'a \<Rightarrow> 'a list" where
  "where_fill cond xs fill = map (\<lambda>(c, x). if c then x else fill) (zip cond xs)"

text \<open>\<^verbatim>\<open>torch.logsumexp\<close> of one row.\<close>

definition logsumexp :: "real list \<Rightarrow> real" where
  "logsumexp row = ln (sum_list (map exp row))"

text \<open>
  \<^verbatim>\<open>row.gather(-1, [t])\<close>: the element at index \<open>t\<close>, as a one-element row.  The index
  must lie in \<open>[0, length row)\<close>; negative indices are not wrapped.
\<close>

definition gather1 :: "'a list \<Rightarrow> int \<Rightarrow> error + 'a list" where
  "gather1 row t =
     (if 0 \<le> t \<and> t < int (length row) then Inr [row ! nat t] else Inl RuntimeError)"

section \<open>Cross entropy\<close>

text \<open>
  The optional soft clipping of one logit.  The theorems below take a clip \<open>c > 0\<close>;
  for \<open>c = 0\<close> the source divides by zero, which the real numbers of the model do not
  reproduce.
\<close>

definition soft_clip :: "real option \<Rightarrow> real \<Rightarrow> real" where
  "soft_clip logits_soft_clip x =
     (case logits_soft_clip of None \<Rightarrow> x | Some c \<Rightarrow> c * tanh (x / c))"

text \<open>
  One row of the loop body: the converted and clipped logits, their log-partition kept
  as a one-element row (\<^verbatim>\<open>keepdim=True\<close>), minus the gathered logit of the target.
\<close>

definition ce_row :: "dtype \<Rightarrow> real option \<Rightarrow> real list \<Rightarrow> int \<Rightarrow> error + real list" where
  "ce_row dt logits_soft_clip logits_row target =
     (let logits_row = map (to_dtype dt) logits_row;
          logits_row = map (soft_clip logits_soft_clip) logits_row;
          log_partition = [logsumexp logits_row]
      in case gather1 logits_row target of
           Inl e \<Rightarrow> Inl e
         | Inr g \<Rightarrow> Inr (map (\<lambda>(l, x). l - x) (zip log_partition g)))"

text \<open>The loop body on one chunk: every row of the chunk, stopping at the first error.\<close>

fun ce_chunk :: "dtype \<Rightarrow> real option \<Rightarrow> real list list \<Rightarrow> int list
    \<Rightarrow> error + real list list" where
  "ce_chunk dt c (r # rs) (t # ts) =
     (case ce_row dt c r t of
        Inl e \<Rightarrow> Inl e
      | Inr v \<Rightarrow> (case ce_chunk dt c rs ts of Inl e \<Rightarrow> Inl e | Inr vs \<Rightarrow> Inr (v # vs)))"
| "ce_chunk dt c _ _ = Inr []"

text \<open>
  The loop over the zipped chunks of the logits and of the safe targets, with the list
  \<^verbatim>\<open>ce_chunks\<close> it appends to.
\<close>

fun ce_loop :: "dtype \<Rightarrow> real option \<Rightarrow> (real list list \<times> int list) list
    \<Rightarrow> real list list list \<Rightarrow> error + real list list list" where
  "ce_loop dt c [] ce_chunks = Inr ce_chunks"
| "ce_loop dt c ((logits_chunk, targets_chunk) # rest) ce_chunks =
     (case ce_chunk dt c logits_chunk targets_chunk of
        Inl e \<Rightarrow> Inl e
      | Inr ce \<Rightarrow> ce_loop dt c rest (ce_chunks @ [ce]))"

text \<open>
  \<open>cross_entropy\<close> of the source: the two assertions on the shapes, the flattening, the
  safe targets, the loop over four chunks, and the mask applied to the concatenated
  result, which takes the shape of the targets.
\<close>

definition cross_entropy :: "real tensor \<Rightarrow> int tensor \<Rightarrow> bool tensor \<Rightarrow> dtype
    \<Rightarrow> real option \<Rightarrow> error + real tensor" where
  "cross_entropy logits targets msk dt logits_soft_clip =
     (let output_shape = shape targets
      in if butlast (shape logits) \<noteq> shape targets then Inl AssertionError
         else if shape msk \<noteq> shape targets then Inl AssertionError
         else
           case view_rows logits of
             Inl e \<Rightarrow> Inl e
           | Inr logits_rows \<Rightarrow>
               let safe_targets = where_fill (data msk) (data targets) 0
               in case ce_loop dt logits_soft_clip
                         (zip (chunk logits_rows 4) (chunk safe_targets 4)) [] of
                    Inl e \<Rightarrow> Inl e
                  | Inr ce_chunks \<Rightarrow>
                      let ce = concat ce_chunks;
                          ce = map (\<lambda>r. r ! 0) ce;
                          ce = where_fill (data msk) ce 0
                      in Inr \<lparr>shape = output_shape, data = ce\<rparr>)"

text \<open>Row \<open>i\<close> of a tensor along its last dimension, in the order of \<^verbatim>\<open>view(-1, C)\<close>.\<close>

definition tensor_row :: "'a tensor \<Rightarrow> nat \<Rightarrow> 'a list" where
  "tensor_row t i = take (last (shape t)) (drop (i * last (shape t)) (data t))"

section \<open>Sampling\<close>

text \<open>
  The rows of a tensor along its last dimension; a zero-dimensional tensor counts as one
  row, as the tensor library treats a scalar under \<^verbatim>\<open>dim=-1\<close>.
\<close>

definition tensor_rows :: "'a tensor \<Rightarrow> 'a list list" where
  "tensor_rows t =
     (if shape t = [] then [data t] else split_size (last (shape t)) (data t))"

text \<open>
  The random generator is the stream of uniform variates in \<open>[0, 1)\<close> it will produce;
  the draw for row \<open>r\<close> and sample \<open>j\<close> out of \<open>n\<close> reads variate \<open>r * n + j\<close>.  The
  sampling functions of the source take no generator argument and use the global one,
  which is an explicit argument here.  A theorem that holds for every well-formed
  generator holds for every outcome of the draw.
\<close>

type_synonym generator = "nat \<Rightarrow> real"

definition wf_generator :: "generator \<Rightarrow> bool" where
  "wf_generator gen \<longleftrightarrow> (\<forall>n. 0 \<le> gen n \<and> gen n < 1)"

definition constant_generator :: "real \<Rightarrow> generator" where
  "constant_generator u n = u"

text \<open>
  \<^verbatim>\<open>torch.sort(row, descending=True)\<close> of one row: the sorted values and the permutation
  of the indices.  The library leaves the order of equal values open; the model keeps
  the lower index first.
\<close>

definition sort_descending :: "real list \<Rightarrow> real list \<times> nat list" where
  "sort_descending row =
     (let idx = sort_key (\<lambda>i. - (row ! i)) [0..<length row]
      in (map (\<lambda>i. row ! i) idx, idx))"

text \<open>
  \<^verbatim>\<open>torch.cumsum\<close> of one row of a tensor of the floating type \<open>dt\<close>: the inclusive
  running sums.  As the CPU kernel of the library does, the model accumulates from left
  to right in the accumulation type of \<open>dt\<close>, the next wider type, rounding every addition
  to it, and rounds every running sum to \<open>dt\<close> for the result.
\<close>

fun acc_type :: "dtype \<Rightarrow> dtype" where
  "acc_type Float16 = Float32"
| "acc_type BFloat16 = Float32"
| "acc_type Float32 = Float64"
| "acc_type Float64 = Float64"

fun cumsum_from :: "dtype \<Rightarrow> real \<Rightarrow> real list \<Rightarrow> real list" where
  "cumsum_from dt acc [] = []"
| "cumsum_from dt acc (x # xs) =
     (let cum_number = float_round (acc_type dt) (acc + x)
      in float_round dt cum_number # cumsum_from dt cum_number xs)"

definition cumsum :: "dtype \<Rightarrow> real list \<Rightarrow> real list" where
  "cumsum dt xs = cumsum_from dt 0 xs"

text \<open>
  \<^verbatim>\<open>torch.topk(t, k, dim=-1)\<close>: the \<open>k\<close> largest values of every row in descending order,
  with their indices.  The library rejects \<open>k < 0\<close> and \<open>k\<close> above the size of the last
  dimension (above 1 for a zero-dimensional tensor, which stays zero-dimensional).
\<close>

definition topk :: "real tensor \<Rightarrow> int \<Rightarrow> error + real tensor \<times> nat tensor" where
  "topk t k =
     (if shape t = [] then
        (if k < 0 \<or> 1 < k then Inl RuntimeError else Inr (t, \<lparr>shape = [], data = [0]\<rparr>))
      else if k < 0 \<or> int (last (shape t)) < k then Inl RuntimeError
      else
        let sorted = map sort_descending (tensor_rows t);
            out_shape = butlast (shape t) @ [nat k]
        in Inr (\<lparr>shape = out_shape, data = concat (map (\<lambda>(v, i). take (nat k) v) sorted)\<rparr>,
                \<lparr>shape = out_shape, data = concat (map (\<lambda>(v, i). take (nat k) i) sorted)\<rparr>))"

text \<open>
  One draw from unnormalised non-negative weights by inversion of the cumulative sums:
  with \<open>t\<close> in \<open>[0, sum_list ws)\<close>, the first index whose running sum exceeds \<open>t\<close>.
  Index \<open>i\<close> is drawn for a set of \<open>t\<close> of measure \<open>ws ! i\<close>, so a uniform \<open>t\<close> draws
  \<open>i\<close> with probability \<open>ws ! i / sum_list ws\<close>, the distribution \<^verbatim>\<open>torch.multinomial\<close>
  documents.
\<close>

fun draw_from :: "real list \<Rightarrow> real \<Rightarrow> nat" where
  "draw_from [] t = 0"
| "draw_from (w # ws) t = (if t < w then 0 else Suc (draw_from ws (t - w)))"

text \<open>
  Several draws from one row, one variate each.  Without replacement a drawn category
  loses its weight; once the positive weights are used up the library goes on with
  categories of weight zero, which ones it leaves open, and the model takes the lowest
  index not drawn yet.
\<close>

definition next_undrawn :: "nat \<Rightarrow> nat list \<Rightarrow> nat" where
  "next_undrawn n drawn =
     (case filter (\<lambda>i. i \<notin> set drawn) [0..<n] of [] \<Rightarrow> 0 | i # _ \<Rightarrow> i)"

fun draws_from :: "bool \<Rightarrow> real list \<Rightarrow> nat list \<Rightarrow> real list \<Rightarrow> nat list" where
  "draws_from replacement ws drawn [] = []"
| "draws_from replacement ws drawn (u # us) =
     (let i = (if sum_list ws = 0 then next_undrawn (length ws) drawn
               else draw_from ws (u * sum_list ws))
      in i # draws_from replacement (if replacement then ws else ws[i := 0]) (i # drawn) us)"

definition draws :: "bool \<Rightarrow> real list \<Rightarrow> real list \<Rightarrow> nat list" where
  "draws replacement ws us = draws_from replacement ws [] us"

text \<open>
  \<^verbatim>\<open>torch.multinomial\<close> on the rows of a two-dimensional tensor.  A weight is \<open>None\<close> when
  it is not a finite number (the result of a division by zero).  The library rejects a
  non-positive number of samples, more samples than categories without replacement, more
  than \<open>2\<^sup>2\<^sup>4\<close> categories, a weight that is negative or not finite, and a row that sums
  to zero.
\<close>

definition torch_multinomial :: "nat \<Rightarrow> real option list list \<Rightarrow> int \<Rightarrow> bool \<Rightarrow> generator
    \<Rightarrow> error + nat list list" where
  "torch_multinomial n_categories rows num_samples replacement gen =
     (if num_samples \<le> 0 then Inl RuntimeError
      else if \<not> replacement \<and> int n_categories < num_samples then Inl RuntimeError
      else if 2 ^ 24 < n_categories then Inl RuntimeError
      else if \<exists>row\<in>set rows. \<exists>w\<in>set row. (case w of None \<Rightarrow> True | Some x \<Rightarrow> x < 0)
        then Inl RuntimeError
      else if \<exists>row\<in>set rows. sum_list (map the row) = 0 then Inl RuntimeError
      else Inr (map (\<lambda>(r, row). draws replacement (map the row)
                       (map (\<lambda>j. gen (r * nat num_samples + j)) [0..<nat num_samples]))
                  (enumerate 0 rows)))"

text \<open>
  \<open>multinomial\<close> of the source: \<^verbatim>\<open>input.reshape(-1, input.shape[-1])\<close>, the library draw,
  and the reshape back to \<^verbatim>\<open>(*input.shape[:-1], -1)\<close>.  Reading \<^verbatim>\<open>shape[-1]\<close> of a
  zero-dimensional tensor raises IndexError; a reshape with \<open>-1\<close> is ambiguous, and
  rejected, when the tensor has no elements and the other dimensions multiply to zero.
\<close>

definition multinomial :: "real option tensor \<Rightarrow> int \<Rightarrow> bool \<Rightarrow> generator
    \<Rightarrow> error + nat tensor" where
  "multinomial input num_samples replacement gen =
     (if shape input = [] then Inl IndexError
      else if last (shape input) = 0 then Inl RuntimeError
      else
        let input_rows = tensor_rows input
        in case torch_multinomial (last (shape input)) input_rows num_samples replacement gen of
             Inl e \<Rightarrow> Inl e
           | Inr output_rows \<Rightarrow>
               if prod_list (butlast (shape input)) = 0 then Inl RuntimeError
               else Inr \<lparr>shape = butlast (shape input) @ [nat num_samples],
                         data = concat output_rows\<rparr>)"

text \<open>
  \<^verbatim>\<open>input.gather(-1, index)\<close>: every row of \<open>index\<close> selects from the matching row of
  \<open>input\<close>; an index outside the row is rejected.  The result has the shape of \<open>index\<close>.
\<close>

fun gather_rows :: "'a list list \<Rightarrow> nat list list \<Rightarrow> error + 'a list list" where
  "gather_rows (row # rows) (idx # idxs) =
     (if \<exists>j\<in>set idx. length row \<le> j then Inl RuntimeError
      else case gather_rows rows idxs of
             Inl e \<Rightarrow> Inl e
           | Inr out \<Rightarrow> Inr (map (\<lambda>j. row ! j) idx # out))"
| "gather_rows _ _ = Inr []"

definition gather :: "'a tensor \<Rightarrow> nat tensor \<Rightarrow> error + 'a tensor" where
  "gather input index =
     (case gather_rows (tensor_rows input) (tensor_rows index) of
        Inl e \<Rightarrow> Inl e
      | Inr out \<Rightarrow> Inr \<lparr>shape = shape index, data = concat out\<rparr>)"

text \<open>
  \<open>sample_top_k\<close> of the source: the values and indices of \<^verbatim>\<open>torch.topk\<close>, one draw
  per row with the values as weights, and the drawn positions looked up in the indices.
\<close>

definition sample_top_k :: "real tensor \<Rightarrow> int \<Rightarrow> generator \<Rightarrow> error + nat tensor" where
  "sample_top_k probs k gen =
     (case topk probs k of
        Inl e \<Rightarrow> Inl e
      | Inr (probs, indices) \<Rightarrow>
          (case multinomial \<lparr>shape = shape probs, data = map Some (data probs)\<rparr> 1 False gen of
             Inl e \<Rightarrow> Inl e
           | Inr next_token \<Rightarrow> gather indices next_token))"

text \<open>
  The steps of \<open>sample_top_p\<close> on one sorted row of a tensor of the floating type \<open>dt\<close>.
  The mask \<^verbatim>\<open>probs_sum - probs_sort > p\<close> is computed in that type: the subtraction is
  rounded, and the Python float \<open>p\<close> is converted to the type before the comparison.  The
  product with \<^verbatim>\<open>(~mask).float()\<close>, a factor 1 or 0, is exact.  The division by the sum
  of the row gives no finite number when that sum is zero; otherwise the sum and the
  quotients, whose rounding the library does not fix, are taken exactly.
\<close>

definition top_p_mask :: "dtype \<Rightarrow> real \<Rightarrow> real list \<Rightarrow> bool list" where
  "top_p_mask dt p probs_sort =
     map (\<lambda>(s, x). float_round dt (s - x) > float_round dt p)
       (zip (cumsum dt probs_sort) probs_sort)"

definition top_p_masked :: "dtype \<Rightarrow> real \<Rightarrow> real list \<Rightarrow> real list" where
  "top_p_masked dt p probs_sort =
     map (\<lambda>(x, m). x * (if \<not> m then 1 else 0))
       (zip probs_sort (top_p_mask dt p probs_sort))"

definition div_sum :: "real list \<Rightarrow> real option list" where
  "div_sum xs = map (\<lambda>x. if sum_list xs = 0 then None else Some (x / sum_list xs)) xs"

text \<open>
  \<open>sample_top_p\<close> of the source: sort, mask, renormalise, one draw per row, and the drawn
  positions looked up in the permutation of the sort.  The floating type of \<open>probs\<close>, an
  attribute of the tensor in the source, is the explicit argument \<open>dt\<close>.
\<close>

definition sample_top_p :: "dtype \<Rightarrow> real tensor \<Rightarrow> real \<Rightarrow> generator
    \<Rightarrow> error + nat tensor" where
  "sample_top_p dt probs p gen =
     (let sorted = map sort_descending (tensor_rows probs);
          probs_sort = map (\<lambda>(v, i). div_sum (top_p_masked dt p v)) sorted;
          probs_idx = map snd sorted
      in case multinomial \<lparr>shape = shape probs, data = concat probs_sort\<rparr> 1 False gen of
           Inl e \<Rightarrow> Inl e
         | Inr next_token \<Rightarrow> gather \<lparr>shape = shape probs, data = concat probs_idx\<rparr> next_token)"

subsection \<open>What the sampling functions compute on one row\<close>

text \<open>
  A probability tensor, as the sampling functions expect it: every row is non-negative
  and sums to 1.
\<close>

definition probability_rows :: "real tensor \<Rightarrow> bool" where
  "probability_rows probs \<longleftrightarrow>
     (\<forall>row\<in>set (tensor_rows probs). (\<forall>x\<in>set row. 0 \<le> x) \<and> sum_list row = 1)"

text \<open>
  The class \<open>sample_top_k\<close> returns for one row and one variate: the draw among the \<open>k\<close>
  largest probabilities, taken as weights as they are, mapped back through the indices
  of \<open>topk\<close>.
\<close>

definition top_k_draw :: "real list \<Rightarrow> nat \<Rightarrow> real \<Rightarrow> nat" where
  "top_k_draw row k u =
     (let (probs, indices) = sort_descending row;
          probs = take k probs;
          indices = take k indices
      in indices ! draw_from probs (u * sum_list probs))"

text \<open>
  The renormalised weights of \<open>sample_top_p\<close> for one row, and the class it returns for
  one variate: the draw among them, mapped back through the permutation of the sort.
\<close>

definition top_p_weights :: "dtype \<Rightarrow> real \<Rightarrow> real list \<Rightarrow> real list" where
  "top_p_weights dt p row =
     (let probs_sort = top_p_masked dt p (fst (sort_descending row))
      in map (\<lambda>x. x / sum_list probs_sort) probs_sort)"

definition top_p_draw :: "dtype \<Rightarrow> real list \<Rightarrow> real \<Rightarrow> real \<Rightarrow> nat" where
  "top_p_draw dt row p u =
     (let (probs_sort, probs_idx) = sort_descending row;
          probs_sort = top_p_masked dt p probs_sort;
          probs_sort = map (\<lambda>x. x / sum_list probs_sort) probs_sort
      in probs_idx ! draw_from probs_sort (u * sum_list probs_sort))"

text \<open>
  The classes of a row that survive the mask of \<open>sample_top_p\<close>: the original indices of
  the entries that are not zero after the product with the negated mask.
\<close>

definition top_p_survivors :: "dtype \<Rightarrow> real \<Rightarrow> real list \<Rightarrow> nat set" where
  "top_p_survivors dt p row =
     (let (probs_sort, probs_idx) = sort_descending row
      in set (map snd (filter (\<lambda>(x, i). x \<noteq> 0)
                (zip (top_p_masked dt p probs_sort) probs_idx))))"

text \<open>
  A probability tensor as it is stored in the floating type \<open>dt\<close>: every entry is a
  non-negative number of the type, and every row sums to 1 up to rounding, of which only
  a positive sum of at most 2 is retained.  Every tensor of exactly normalised rows of
  numbers of the type is one.
\<close>

definition float_probability_rows :: "dtype \<Rightarrow> real tensor \<Rightarrow> bool" where
  "float_probability_rows dt probs \<longleftrightarrow>
     (\<forall>row\<in>set (tensor_rows probs).
        (\<forall>x\<in>set row. 0 \<le> x \<and> is_float dt x) \<and> 0 < sum_list row \<and> sum_list row \<le> 2)"

section \<open>Hashing a word to a vocabulary index\<close>

text \<open>
  A Python string is the list of its Unicode code points, each below \<open>0x110000\<close>; lone
  surrogates (\<open>0xD800\<close> to \<open>0xDFFF\<close>) are legal elements of a string.
  \<^verbatim>\<open>str.encode("utf-8")\<close> is strict: it raises UnicodeEncodeError on a surrogate.
\<close>

type_synonym byte = "8 word"
type_synonym pystr = "nat list"

definition utf8_char :: "nat \<Rightarrow> error + byte list" where
  "utf8_char c =
     (if c < 0x80 then Inr [of_nat c]
      else if c < 0x800 then
        Inr [of_nat (0xC0 + c div 64), of_nat (0x80 + c mod 64)]
      else if 0xD800 \<le> c \<and> c \<le> 0xDFFF then Inl UnicodeEncodeError
      else if c < 0x10000 then
        Inr [of_nat (0xE0 + c div 4096), of_nat (0x80 + c div 64 mod 64),
             of_nat (0x80 + c mod 64)]
      else
        Inr [of_nat (0xF0 + c div 262144), of_nat (0x80 + c div 4096 mod 64),
             of_nat (0x80 + c div 64 mod 64), of_nat (0x80 + c mod 64)])"

fun encode_utf8 :: "pystr \<Rightarrow> error + byte list" where
  "encode_utf8 [] = Inr []"
| "encode_utf8 (c # cs) =
     (case utf8_char c of
        Inl e \<Rightarrow> Inl e
      | Inr bs \<Rightarrow> (case encode_utf8 cs of Inl e \<Rightarrow> Inl e | Inr rest \<Rightarrow> Inr (bs @ rest)))"

text \<open>
  \<^verbatim>\<open>hashlib.sha256\<close>: SHA-256 as FIPS 180-4 defines it, on 32-bit words.
\<close>

type_synonym w32 = "32 word"

definition sha256_k :: "w32 list" where
  "sha256_k =
    [0x428a2f98, 0x71374491, 0xb5c0fbcf, 0xe9b5dba5, 0x3956c25b, 0x59f111f1, 0x923f82a4, 0xab1c5ed5,
     0xd807aa98, 0x12835b01, 0x243185be, 0x550c7dc3, 0x72be5d74, 0x80deb1fe, 0x9bdc06a7, 0xc19bf174,
     0xe49b69c1, 0xefbe4786, 0x0fc19dc6, 0x240ca1cc, 0x2de92c6f, 0x4a7484aa, 0x5cb0a9dc, 0x76f988da,
     0x983e5152, 0xa831c66d, 0xb00327c8, 0xbf597fc7, 0xc6e00bf3, 0xd5a79147, 0x06ca6351, 0x14292967,
     0x27b70a85, 0x2e1b2138, 0x4d2c6dfc, 0x53380d13, 0x650a7354, 0x766a0abb, 0x81c2c92e, 0x92722c85,
     0xa2bfe8a1, 0xa81a664b, 0xc24b8b70, 0xc76c51a3, 0xd192e819, 0xd6990624, 0xf40e3585, 0x106aa070,
     0x19a4c116, 0x1e376c08, 0x2748774c, 0x34b0bcb5, 0x391c0cb3, 0x4ed8aa4a, 0x5b9cca4f, 0x682e6ff3,
     0x748f82ee, 0x78a5636f, 0x84c87814, 0x8cc70208, 0x90befffa, 0xa4506ceb, 0xbef9a3f7, 0xc67178f2]"

definition sha256_h0 :: "w32 list" where
  "sha256_h0 =
    [0x6a09e667, 0xbb67ae85, 0x3c6ef372, 0xa54ff53a, 0x510e527f, 0x9b05688c, 0x1f83d9ab, 0x5be0cd19]"

definition ch :: "w32 \<Rightarrow> w32 \<Rightarrow> w32 \<Rightarrow> w32" where
  "ch x y z = (x AND y) XOR (NOT x AND z)"

definition maj :: "w32 \<Rightarrow> w32 \<Rightarrow> w32 \<Rightarrow> w32" where
  "maj x y z = (x AND y) XOR (x AND z) XOR (y AND z)"

definition big_sigma0 :: "w32 \<Rightarrow> w32" where
  "big_sigma0 x = word_rotr 2 x XOR word_rotr 13 x XOR word_rotr 22 x"

definition big_sigma1 :: "w32 \<Rightarrow> w32" where
  "big_sigma1 x = word_rotr 6 x XOR word_rotr 11 x XOR word_rotr 25 x"

definition small_sigma0 :: "w32 \<Rightarrow> w32" where
  "small_sigma0 x = word_rotr 7 x XOR word_rotr 18 x XOR drop_bit 3 x"

definition small_sigma1 :: "w32 \<Rightarrow> w32" where
  "small_sigma1 x = word_rotr 17 x XOR word_rotr 19 x XOR drop_bit 10 x"

text \<open>
  The padding: the byte \<open>0x80\<close>, zeros up to 56 modulo 64, and the length in bits as 8
  big-endian bytes.
\<close>

definition be_bytes :: "nat \<Rightarrow> int \<Rightarrow> byte list" where
  "be_bytes n v = map (\<lambda>i. of_int (v div 256 ^ (n - 1 - i) mod 256)) [0..<n]"

definition sha256_pad :: "byte list \<Rightarrow> byte list" where
  "sha256_pad msg =
     msg @ [0x80] @ replicate ((119 - length msg mod 64) mod 64) 0
         @ be_bytes 8 (8 * int (length msg) mod 2 ^ 64)"

definition be_word :: "byte list \<Rightarrow> w32" where
  "be_word bs = foldl (\<lambda>acc b. push_bit 8 acc OR ucast b) 0 bs"

fun schedule :: "nat \<Rightarrow> w32 list \<Rightarrow> w32 list" where
  "schedule 0 w = w"
| "schedule (Suc n) w =
     (let i = length w
      in schedule n (w @ [small_sigma1 (w ! (i - 2)) + w ! (i - 7)
                          + small_sigma0 (w ! (i - 15)) + w ! (i - 16)]))"

type_synonym sha_state = "w32 \<times> w32 \<times> w32 \<times> w32 \<times> w32 \<times> w32 \<times> w32 \<times> w32"

fun sha256_round :: "sha_state \<Rightarrow> w32 \<times> w32 \<Rightarrow> sha_state" where
  "sha256_round (a, b, c, d, e, f, g, h) (k, w) =
     (let t1 = h + big_sigma1 e + ch e f g + k + w;
          t2 = big_sigma0 a + maj a b c
      in (t1 + t2, a, b, c, d + t1, e, f, g))"

definition sha256_block :: "w32 list \<Rightarrow> byte list \<Rightarrow> w32 list" where
  "sha256_block hs block =
     (let w = schedule 48 (map be_word (split_size 4 block));
          s = (hs ! 0, hs ! 1, hs ! 2, hs ! 3, hs ! 4, hs ! 5, hs ! 6, hs ! 7);
          (a, b, c, d, e, f, g, h) = foldl sha256_round s (zip sha256_k w)
      in map (\<lambda>(x, y). x + y) (zip hs [a, b, c, d, e, f, g, h]))"

definition word_bytes :: "w32 \<Rightarrow> byte list" where
  "word_bytes w = [ucast (drop_bit 24 w), ucast (drop_bit 16 w), ucast (drop_bit 8 w), ucast w]"

definition sha256 :: "byte list \<Rightarrow> byte list" where
  "sha256 msg =
     concat (map word_bytes (foldl sha256_block sha256_h0 (split_size 64 (sha256_pad msg))))"

text \<open>\<^verbatim>\<open>hexdigest()\<close>: two lowercase hexadecimal digits per byte.\<close>

definition hex_digit :: "nat \<Rightarrow> char" where
  "hex_digit n = ''0123456789abcdef'' ! n"

definition hexdigest :: "byte list \<Rightarrow> string" where
  "hexdigest bs = concat (map (\<lambda>b. [hex_digit (unat b div 16), hex_digit (unat b mod 16)]) bs)"

text \<open>
  \<^verbatim>\<open>int(s, 16)\<close> on a string of hexadecimal digits, ValueError otherwise.  Python also
  accepts a sign, a \<^verbatim>\<open>0x\<close> prefix, underscores and surrounding whitespace; a digest has
  none of them, and they are not modelled.
\<close>

definition hex_value :: "char \<Rightarrow> nat option" where
  "hex_value c =
     (let n = of_char c :: nat
      in if 48 \<le> n \<and> n \<le> 57 then Some (n - 48)
         else if 97 \<le> n \<and> n \<le> 102 then Some (n - 87)
         else if 65 \<le> n \<and> n \<le> 70 then Some (n - 55)
         else None)"

fun int16_from :: "int \<Rightarrow> string \<Rightarrow> error + int" where
  "int16_from acc [] = Inr acc"
| "int16_from acc (c # cs) =
     (case hex_value c of
        None \<Rightarrow> Inl ValueError
      | Some d \<Rightarrow> int16_from (acc * 16 + int d) cs)"

definition int_base16 :: "string \<Rightarrow> error + int" where
  "int_base16 s = (if s = [] then Inl ValueError else int16_from 0 s)"

text \<open>
  \<open>hash_trick\<close> of the source.  Python's \<^verbatim>\<open>%\<close> raises ZeroDivisionError on a zero
  divisor and otherwise takes the sign of the divisor, as \<open>mod\<close> on \<open>int\<close> does.
\<close>

definition hash_trick :: "pystr \<Rightarrow> int \<Rightarrow> error + int" where
  "hash_trick word vocab_size =
     (case encode_utf8 word of
        Inl e \<Rightarrow> Inl e
      | Inr bs \<Rightarrow>
          (case int_base16 (hexdigest (sha256 bs)) of
             Inl e \<Rightarrow> Inl e
           | Inr hash \<Rightarrow>
               if vocab_size = 0 then Inl ZeroDivisionError else Inr (hash mod vocab_size)))"

text \<open>The big-endian value of a byte string, continuing from an accumulator.\<close>

fun be_value :: "int \<Rightarrow> byte list \<Rightarrow> int" where
  "be_value acc [] = acc"
| "be_value acc (b # bs) = be_value (acc * 256 + uint b) bs"

text \<open>A string UTF-8 can encode: one without surrogate code points.\<close>

definition encodable :: "pystr \<Rightarrow> bool" where
  "encodable word \<longleftrightarrow> (\<forall>c\<in>set word. \<not> (0xD800 \<le> c \<and> c \<le> 0xDFFF))"

section \<open>Copying a state\<close>

text \<open>
  The element types of a tensor: the floating-point types and the integral ones.  A
  conversion to a floating-point type rounds to it, one to an integral type truncates
  towards zero and reduces the result modulo \<open>2\<^sup>w\<close> into the range of the \<open>w\<close>-bit type, one
  to the boolean type tests for zero.
\<close>

datatype int_dtype = UInt8 | Int8 | Int16 | Int32 | Int64 | Bool8

datatype torch_dtype = Floating dtype | Integral int_dtype

fun is_floating_point :: "torch_dtype \<Rightarrow> bool" where
  "is_floating_point (Floating _) = True"
| "is_floating_point (Integral _) = False"

fun wrap_int :: "int_dtype \<Rightarrow> int \<Rightarrow> int" where
  "wrap_int UInt8 t = t mod 2 ^ 8"
| "wrap_int Int8 t = (t + 2 ^ 7) mod 2 ^ 8 - 2 ^ 7"
| "wrap_int Int16 t = (t + 2 ^ 15) mod 2 ^ 16 - 2 ^ 15"
| "wrap_int Int32 t = (t + 2 ^ 31) mod 2 ^ 32 - 2 ^ 31"
| "wrap_int Int64 t = (t + 2 ^ 63) mod 2 ^ 64 - 2 ^ 63"
| "wrap_int Bool8 t = (if t = 0 then 0 else 1)"

definition convert :: "torch_dtype \<Rightarrow> real \<Rightarrow> real" where
  "convert dt x =
     (case dt of
        Floating d \<Rightarrow> float_round d x
      | Integral Bool8 \<Rightarrow> (if x = 0 then 0 else 1)
      | Integral it \<Rightarrow> of_int (wrap_int it (if 0 \<le> x then \<lfloor>x\<rfloor> else \<lceil>x\<rceil>)))"

text \<open>The attributes of a tensor that \<open>copy_state\<close> reads or sets.\<close>

record torch_tensor =
  tt_dtype :: torch_dtype
  tt_device :: string
  tt_requires_grad :: bool
  tt_values :: "real tensor"

text \<open>
  The values a state can hold: \<open>copy_state\<close> takes any Python object and tells tensors,
  dictionaries and lists apart with \<^verbatim>\<open>isinstance\<close>.  A dictionary keeps its items in
  insertion order.
\<close>

datatype 'k py_value =
    Tensor torch_tensor
  | Dict "('k \<times> 'k py_value) list"
  | List "'k py_value list"
  | Tuple "'k py_value list"
  | IntVal int
  | FloatVal real
  | StrVal pystr
  | BoolVal bool
  | NoneVal

text \<open>
  The tensor branch: \<^verbatim>\<open>state.detach().to(device=device, dtype=dtype, copy=True)\<close>, where
  the requested type only applies to a floating-point tensor.
\<close>

definition copy_tensor :: "torch_tensor \<Rightarrow> string \<Rightarrow> torch_dtype option \<Rightarrow> torch_tensor" where
  "copy_tensor state device dtype =
     (let dtype = (if dtype = None \<or> \<not> is_floating_point (tt_dtype state)
                   then tt_dtype state else the dtype)
      in \<lparr>tt_dtype = dtype, tt_device = device, tt_requires_grad = False,
          tt_values = \<lparr>shape = shape (tt_values state),
                        data = map (convert dtype) (data (tt_values state))\<rparr>\<rparr>)"

text \<open>
  \<open>copy_state\<close> of the source.  Its \<^verbatim>\<open>if\<close>/\<^verbatim>\<open>elif\<close> chain has no \<^verbatim>\<open>else\<close>: for any other
  object the function ends without a \<^verbatim>\<open>return\<close>, which yields \<^verbatim>\<open>None\<close>.
\<close>

fun copy_state :: "'k py_value \<Rightarrow> string \<Rightarrow> torch_dtype option \<Rightarrow> 'k py_value" where
  "copy_state (Tensor state) device dtype = Tensor (copy_tensor state device dtype)"
| "copy_state (Dict state) device dtype =
     Dict (map (\<lambda>(k, v). (k, copy_state v device dtype)) state)"
| "copy_state (List state) device dtype = List (map (\<lambda>v. copy_state v device dtype) state)"
| "copy_state _ device dtype = NoneVal"

section \<open>Splitting into rows and chunks\<close>

lemma concat_split_size: "0 < n \<Longrightarrow> concat (split_size n xs) = xs"
proof (induction n xs rule: split_size.induct)
  case (1 n xs)
  then show ?case by (subst split_size.simps) auto
qed

lemma length_split_size:
  "0 < n \<Longrightarrow> length xs = m * n \<Longrightarrow> length (split_size n xs) = m"
proof (induction n xs arbitrary: m rule: split_size.induct)
  case (1 n xs)
  show ?case
  proof (cases "xs = []")
    case True
    with 1 show ?thesis by (subst split_size.simps) auto
  next
    case False
    with 1 obtain m' where m: "m = Suc m'" by (cases m) auto
    with 1 False have "length (split_size n (drop n xs)) = m'" by auto
    with 1 False m show ?thesis by (subst split_size.simps) auto
  qed
qed

lemma nth_split_size:
  "0 < n \<Longrightarrow> length xs = m * n \<Longrightarrow> i < m \<Longrightarrow> split_size n xs ! i = take n (drop (i * n) xs)"
proof (induction n xs arbitrary: m i rule: split_size.induct)
  case (1 n xs)
  from 1 have ne: "xs \<noteq> []" by auto
  from 1 obtain m' where m: "m = Suc m'" by (cases m) auto
  show ?case
  proof (cases i)
    case 0
    with 1 ne show ?thesis by (subst split_size.simps) auto
  next
    case (Suc j)
    with 1 ne m have "split_size n (drop n xs) ! j = take n (drop (j * n) (drop n xs))"
      by auto
    with 1 ne Suc show ?thesis by (subst split_size.simps) (auto simp: add.commute)
  qed
qed

section \<open>The chunked loop computes the cross entropy row by row\<close>

lemma ce_chunk_append:
  "length r1 = length t1 \<Longrightarrow>
   ce_chunk dt c (r1 @ r2) (t1 @ t2) =
     (case ce_chunk dt c r1 t1 of
        Inl e \<Rightarrow> Inl e
      | Inr v1 \<Rightarrow> (case ce_chunk dt c r2 t2 of Inl e \<Rightarrow> Inl e | Inr v2 \<Rightarrow> Inr (v1 @ v2)))"
proof (induction r1 arbitrary: t1)
  case Nil
  then show ?case by (auto split: sum.splits)
next
  case (Cons r r1)
  then obtain t t1' where t1: "t1 = t # t1'" by (cases t1) auto
  with Cons show ?case by (auto split: sum.splits)
qed

lemma ce_chunk_take_drop:
  assumes "length rs = length ts"
  shows "ce_chunk dt c rs ts =
     (case ce_chunk dt c (take n rs) (take n ts) of
        Inl e \<Rightarrow> Inl e
      | Inr v1 \<Rightarrow> (case ce_chunk dt c (drop n rs) (drop n ts) of
                     Inl e \<Rightarrow> Inl e | Inr v2 \<Rightarrow> Inr (v1 @ v2)))"
proof -
  have "length (take n rs) = length (take n ts)" using assms by simp
  from ce_chunk_append [OF this, of dt c "drop n rs" "drop n ts"]
  show ?thesis by simp
qed

lemma ce_loop_split_size:
  "0 < n \<Longrightarrow> length rs = length ts \<Longrightarrow>
   (case ce_loop dt c (zip (split_size n rs) (split_size n ts)) acc of
      Inl e \<Rightarrow> Inl e | Inr chunks \<Rightarrow> Inr (concat chunks)) =
   (case ce_chunk dt c rs ts of Inl e \<Rightarrow> Inl e | Inr vs \<Rightarrow> Inr (concat acc @ vs))"
proof (induction n rs arbitrary: ts acc rule: split_size.induct)
  case (1 n rs)
  show ?case
  proof (cases "rs = []")
    case True
    with 1 show ?thesis by (simp add: split_size.simps [of n "[]"])
  next
    case False
    with 1 have tsne: "ts \<noteq> []" by auto
    have ss: "split_size n rs = take n rs # split_size n (drop n rs)"
      "split_size n ts = take n ts # split_size n (drop n ts)"
      using 1 False tsne by (simp_all add: split_size.simps [of n rs] split_size.simps [of n ts])
    have len: "length (drop n rs) = length (drop n ts)" using 1 by simp
    show ?thesis
    proof (cases "ce_chunk dt c (take n rs) (take n ts)")
      case (Inl e)
      then show ?thesis
        using ce_chunk_take_drop [OF 1(3), of dt c n] by (simp add: ss)
    next
      case (Inr v1)
      have IH: "(case ce_loop dt c (zip (split_size n (drop n rs)) (split_size n (drop n ts))) (acc @ [v1]) of
            Inl e \<Rightarrow> Inl e | Inr chunks \<Rightarrow> Inr (concat chunks))
          = (case ce_chunk dt c (drop n rs) (drop n ts) of
               Inl e \<Rightarrow> Inl e | Inr vs \<Rightarrow> Inr (concat (acc @ [v1]) @ vs))"
        using 1(1) [OF _ 1(2) len, of "acc @ [v1]"] 1(2) False by blast
      have whole: "ce_chunk dt c rs ts =
          (case ce_chunk dt c (drop n rs) (drop n ts) of
             Inl e \<Rightarrow> Inl e | Inr v2 \<Rightarrow> Inr (v1 @ v2))"
        using Inr ce_chunk_take_drop [OF 1(3), of dt c n] by simp
      show ?thesis
        unfolding ss whole using Inr IH
        by (cases "ce_chunk dt c (drop n rs) (drop n ts)") simp_all
    qed
  qed
qed

lemma ce_loop_replicate:
  "ce_loop dt c (replicate m ([], [])) acc = Inr (acc @ replicate m [])"
proof (induction m arbitrary: acc)
  case 0 show ?case by simp
next
  case (Suc m)
  show ?case by (simp add: Suc replicate_app_Cons_same)
qed

lemma ce_loop_chunk:
  assumes "length rs = length ts" "0 < k"
  shows "(case ce_loop dt c (zip (chunk rs k) (chunk ts k)) [] of
            Inl e \<Rightarrow> Inl e | Inr chunks \<Rightarrow> Inr (concat chunks)) = ce_chunk dt c rs ts"
proof (cases "(length rs + k - 1) div k = 0")
  case True
  then have "length rs + k - 1 < k" using assms(2) by (simp add: div_eq_0_iff)
  then have "length rs = 0" by arith
  then have e: "rs = []" "ts = []" using assms by auto
  have sz: "(length ([]::real list list) + k - 1) div k = 0"
     "(length ([]::int list) + k - 1) div k = 0" using True e by simp_all
  show ?thesis unfolding e chunk_def Let_def sz
    by (simp add: zip_replicate ce_loop_replicate)
next
  case False
  have pos: "0 < (length rs + k - 1) div k" using False by simp
  have ch: "chunk rs k = split_size ((length rs + k - 1) div k) rs"
    "chunk ts k = split_size ((length rs + k - 1) div k) ts"
    using False assms(1) by (simp_all add: chunk_def)
  have "(case ce_chunk dt c rs ts of Inl e \<Rightarrow> Inl e | Inr vs \<Rightarrow> Inr (concat [] @ vs))
      = ce_chunk dt c rs ts" by (cases "ce_chunk dt c rs ts") simp_all
  then show ?thesis
    unfolding ch using ce_loop_split_size [OF pos assms(1), of dt c "[]"] by simp
qed

lemma ce_chunk_ok:
  "length rs = length ts \<Longrightarrow>
   (\<forall>i<length rs. 0 \<le> ts ! i \<and> ts ! i < int (length (rs ! i))) \<Longrightarrow>
   ce_chunk dt c rs ts =
     Inr (map (\<lambda>(r, t). [logsumexp (map (soft_clip c) (map (to_dtype dt) r))
                          - map (soft_clip c) (map (to_dtype dt) r) ! nat t]) (zip rs ts))"
proof (induction rs arbitrary: ts)
  case Nil
  then show ?case by simp
next
  case (Cons r rs)
  then obtain t ts' where ts: "ts = t # ts'" by (cases ts) auto
  from Cons.prems ts have hd: "0 \<le> t \<and> t < int (length r)" by auto
  from Cons.prems ts have tl: "\<forall>i<length rs. 0 \<le> ts' ! i \<and> ts' ! i < int (length (rs ! i))"
    by auto
  from Cons.prems ts have len: "length rs = length ts'" by simp
  have row: "ce_row dt c r t = Inr [logsumexp (map (soft_clip c) (map (to_dtype dt) r))
                          - map (soft_clip c) (map (to_dtype dt) r) ! nat t]"
    using hd by (simp add: ce_row_def gather1_def Let_def)
  show ?case unfolding ts using row Cons.IH [OF len tl] by simp
qed

lemma ce_chunk_bad:
  "length rs = length ts \<Longrightarrow> i < length rs \<Longrightarrow>
   \<not> (0 \<le> ts ! i \<and> ts ! i < int (length (rs ! i))) \<Longrightarrow>
   ce_chunk dt c rs ts = Inl RuntimeError"
proof (induction rs arbitrary: ts i)
  case Nil
  then show ?case by simp
next
  case (Cons r rs)
  then obtain t ts' where ts: "ts = t # ts'" by (cases ts) auto
  show ?case
  proof (cases "0 \<le> t \<and> t < int (length r)")
    case False
    then have "ce_row dt c r t = Inl RuntimeError"
      by (auto simp: ce_row_def gather1_def Let_def)
    then show ?thesis unfolding ts by simp
  next
    case True
    with Cons.prems ts obtain j where j: "i = Suc j" by (cases i) auto
    with Cons.prems ts have "ce_chunk dt c rs ts' = Inl RuntimeError"
      by (intro Cons.IH [of ts' j]) auto
    moreover have "\<exists>v. ce_row dt c r t = Inr v"
      using True by (simp add: ce_row_def gather1_def Let_def)
    ultimately show ?thesis unfolding ts by auto
  qed
qed

lemma length_where_fill: "length (where_fill cond xs fill) = min (length cond) (length xs)"
  by (simp add: where_fill_def)

lemma nth_where_fill:
  "i < length cond \<Longrightarrow> i < length xs \<Longrightarrow>
   where_fill cond xs fill ! i = (if cond ! i then xs ! i else fill)"
  by (simp add: where_fill_def)

lemma view_rows_ok:
  assumes "shape t = s @ [C]" "0 < C" "wf_tensor t"
  shows "view_rows t = Inr (split_size C (data t))"
    and "length (split_size C (data t)) = prod_list s"
    and "i < prod_list s \<Longrightarrow> split_size C (data t) ! i = take C (drop (i * C) (data t))"
    and "i < prod_list s \<Longrightarrow> length (split_size C (data t) ! i) = C"
proof -
  have len: "length (data t) = prod_list s * C"
    using assms by (simp add: wf_tensor_def)
  show "view_rows t = Inr (split_size C (data t))"
    using assms by (simp add: view_rows_def)
  show "length (split_size C (data t)) = prod_list s"
    using length_split_size [OF assms(2) len] .
  show nth: "split_size C (data t) ! i = take C (drop (i * C) (data t))" if "i < prod_list s"
    using nth_split_size [OF assms(2) len that] .
  show "length (split_size C (data t) ! i) = C" if i: "i < prod_list s"
  proof -
    have "Suc i * C \<le> prod_list s * C" using i by (intro mult_le_mono1) simp
    then have "C \<le> length (data t) - i * C" using len by simp
    then show ?thesis using nth [OF i] by simp
  qed
qed

lemma cross_entropy_value:
  assumes sh: "shape logits = shape targets @ [C]" "shape msk = shape targets"
    and C: "0 < C"
    and wf: "wf_tensor logits" "wf_tensor targets" "wf_tensor msk"
    and rng: "\<forall>i<length (data targets). data msk ! i \<longrightarrow>
                0 \<le> data targets ! i \<and> data targets ! i < int C"
  shows "cross_entropy logits targets msk dt c =
     Inr \<lparr>shape = shape targets,
          data = map (\<lambda>i. if data msk ! i
                           then logsumexp (map (soft_clip c) (map (to_dtype dt) (tensor_row logits i)))
                                - map (soft_clip c) (map (to_dtype dt) (tensor_row logits i))
                                    ! nat (data targets ! i)
                           else 0) [0..<length (data targets)]\<rparr>"
proof -
  let ?N = "length (data targets)"
  let ?rows = "split_size C (data logits)"
  let ?safe = "where_fill (data msk) (data targets) 0"
  let ?f = "\<lambda>(r, t). [logsumexp (map (soft_clip c) (map (to_dtype dt) r))
                          - map (soft_clip c) (map (to_dtype dt) r) ! nat t]"
  have N: "prod_list (shape targets) = ?N" "length (data msk) = ?N"
    using wf sh by (simp_all add: wf_tensor_def)
  note vr = view_rows_ok [OF sh(1) C wf(1), unfolded N]
  have lsafe: "length ?safe = ?N" by (simp add: length_where_fill N)
  have safe: "?safe ! i = (if data msk ! i then data targets ! i else 0)" if "i < ?N" for i
    using that by (simp add: nth_where_fill N)
  have ok: "\<forall>i<length ?rows. 0 \<le> ?safe ! i \<and> ?safe ! i < int (length (?rows ! i))"
  proof (intro allI impI)
    fix i assume "i < length ?rows"
    then have i: "i < ?N" by (simp add: vr(2))
    have l: "length (?rows ! i) = C" by (rule vr(4) [OF i])
    show "0 \<le> ?safe ! i \<and> ?safe ! i < int (length (?rows ! i))"
      unfolding l safe [OF i] using rng C i by auto
  qed
  have len: "length ?rows = length ?safe" by (simp add: vr lsafe)
  have chunkv: "ce_chunk dt c ?rows ?safe = Inr (map ?f (zip ?rows ?safe))"
    by (rule ce_chunk_ok [OF len ok])
  obtain chunks where loop: "ce_loop dt c (zip (chunk ?rows 4) (chunk ?safe 4)) [] = Inr chunks"
    and cc: "concat chunks = map ?f (zip ?rows ?safe)"
    using ce_loop_chunk [OF len, of 4 dt c] chunkv by (auto split: sum.splits)
  have last: "last (shape logits) = C" "butlast (shape logits) = shape targets"
    using sh by simp_all
  have "where_fill (data msk) (map (\<lambda>r. r ! 0) (map ?f (zip ?rows ?safe))) 0 =
        map (\<lambda>i. if data msk ! i
                           then logsumexp (map (soft_clip c) (map (to_dtype dt) (tensor_row logits i)))
                                - map (soft_clip c) (map (to_dtype dt) (tensor_row logits i))
                                    ! nat (data targets ! i)
                           else 0) [0..<?N]"
    by (rule nth_equalityI)
       (simp_all add: length_where_fill nth_where_fill N len lsafe vr safe tensor_row_def last)
  then show ?thesis
    by (simp add: cross_entropy_def sh vr(1) loop cc Let_def)
qed

section \<open>Bounds on clipped logits and on the log-partition\<close>

lemma soft_clip_bound:
  assumes "0 < c"
  shows "\<bar>soft_clip (Some c) x\<bar> < c"
proof -
  have "\<bar>tanh (x / c)\<bar> < 1"
    using tanh_real_lt_1 [of "x / c"] tanh_real_gt_neg1 [of "x / c"] by (simp add: abs_less_iff)
  then have "c * \<bar>tanh (x / c)\<bar> < c * 1"
    using assms by (intro mult_strict_left_mono) simp_all
  then show ?thesis using assms by (simp add: soft_clip_def abs_mult)
qed

lemma elem_le_sum_list:
  fixes xs :: "real list"
  shows "\<forall>x\<in>set xs. 0 \<le> x \<Longrightarrow> i < length xs \<Longrightarrow> xs ! i \<le> sum_list xs"
proof (induction xs arbitrary: i)
  case Nil
  then show ?case by simp
next
  case (Cons a xs)
  have nn: "0 \<le> sum_list xs" using Cons.prems(1) by (intro sum_list_nonneg) simp
  show ?case
  proof (cases i)
    case 0
    then show ?thesis using nn by simp
  next
    case (Suc j)
    then have "xs ! j \<le> sum_list xs" using Cons by auto
    then show ?thesis using Suc Cons.prems(1) by simp
  qed
qed

lemma sum_list_le_bound:
  fixes xs :: "real list"
  shows "\<forall>x\<in>set xs. x \<le> M \<Longrightarrow> sum_list xs \<le> real (length xs) * M"
  by (induction xs) (auto simp: algebra_simps)

lemma logsumexp_ge_elem:
  assumes "i < length row"
  shows "row ! i \<le> logsumexp row"
proof -
  have "exp (row ! i) \<le> sum_list (map exp row)"
    using elem_le_sum_list [of "map exp row" i] assms by simp
  then have "ln (exp (row ! i)) \<le> ln (sum_list (map exp row))"
    by (intro ln_mono) (auto intro: less_le_trans [OF exp_gt_zero])
  then show ?thesis by (simp add: logsumexp_def)
qed

lemma logsumexp_le_bound:
  assumes "row \<noteq> []" "\<forall>x\<in>set row. x \<le> M"
  shows "logsumexp row \<le> M + ln (real (length row))"
proof -
  have pos: "0 < sum_list (map exp row)"
  proof -
    have "exp (row ! 0) \<le> sum_list (map exp row)"
      using elem_le_sum_list [of "map exp row" 0] assms(1) by simp
    then show ?thesis by (rule less_le_trans [OF exp_gt_zero])
  qed
  have "sum_list (map exp row) \<le> real (length (map exp row)) * exp M"
    using assms(2) by (intro sum_list_le_bound) simp
  then have "ln (sum_list (map exp row)) \<le> ln (real (length row) * exp M)"
    using pos by (intro ln_mono) simp_all
  also have "\<dots> = ln (real (length row)) + M"
    using assms(1) by (simp add: ln_mult)
  finally show ?thesis by (simp add: logsumexp_def)
qed

lemma length_tensor_row:
  assumes "shape logits = s @ [C]" "wf_tensor logits" "i < prod_list s"
  shows "length (tensor_row logits i) = C"
proof -
  have len: "length (data logits) = prod_list s * C"
    using assms by (simp add: wf_tensor_def)
  have "Suc i * C \<le> prod_list s * C" using assms(3) by (intro mult_le_mono1) simp
  then have "C \<le> length (data logits) - i * C" using len by simp
  then show ?thesis using assms(1) by (simp add: tensor_row_def)
qed

section \<open>Shape checks of the cross entropy\<close>

text \<open>
  C7.  Whenever the shape of the logits without its last dimension differs from the shape
  of the targets, or the shape of the mask differs from the shape of the targets,
  \<open>cross_entropy\<close> raises the assertion error, whatever the elements of the three tensors
  are: no result tensor is returned for mismatched shapes.
\<close>

theorem cross_entropy_shape_mismatch:
  assumes "butlast (shape logits) \<noteq> shape targets \<or> shape msk \<noteq> shape targets"
  shows "cross_entropy logits targets msk dt c = Inl AssertionError"
  using assms by (auto simp: cross_entropy_def)

theorem cross_entropy_shape_mismatch_witness:
  "butlast (shape \<lparr>shape = [1, 1, 2, 3], data = [0, 0, 0, 0, 0, 0 :: real]\<rparr>)
      \<noteq> shape \<lparr>shape = [1, 1, 1], data = [7 :: int]\<rparr>
   \<and> cross_entropy \<lparr>shape = [1, 1, 2, 3], data = [0, 0, 0, 0, 0, 0]\<rparr>
        \<lparr>shape = [1, 1, 1], data = [7]\<rparr> \<lparr>shape = [1, 1, 1], data = [True]\<rparr>
        Float32 None = Inl AssertionError
   \<and> shape \<lparr>shape = [1, 2], data = [True, False]\<rparr>
      \<noteq> shape \<lparr>shape = [1, 1], data = [0 :: int]\<rparr>
   \<and> cross_entropy \<lparr>shape = [1, 1, 3], data = [0, 0, 0]\<rparr>
        \<lparr>shape = [1, 1], data = [0]\<rparr> \<lparr>shape = [1, 2], data = [True, False]\<rparr>
        Float32 None = Inl AssertionError"
  using cross_entropy_shape_mismatch
    [of "\<lparr>shape = [1, 1, 2, 3], data = [0, 0, 0, 0, 0, 0 :: real]\<rparr>"
        "\<lparr>shape = [1, 1, 1], data = [7 :: int]\<rparr>"
        "\<lparr>shape = [1, 1, 1], data = [True]\<rparr>" Float32 None]
    cross_entropy_shape_mismatch
    [of "\<lparr>shape = [1, 1, 3], data = [0, 0, 0 :: real]\<rparr>"
        "\<lparr>shape = [1, 1], data = [0 :: int]\<rparr>"
        "\<lparr>shape = [1, 2], data = [True, False]\<rparr>" Float32 None]
  by simp

section \<open>Values of the cross entropy\<close>

lemma cross_entropy_value2:
  assumes "shape logits = shape targets @ [C]" and "shape msk = shape targets"
    and "0 < C"
    and "wf_tensor logits" and "wf_tensor targets" and "wf_tensor msk"
    and "\<forall>i<length (data targets). data msk ! i \<longrightarrow>
           0 \<le> data targets ! i \<and> data targets ! i < int C"
  shows "cross_entropy logits targets msk dt c =
     Inr \<lparr>shape = shape targets,
          data = map (\<lambda>i. if data msk ! i
                           then logsumexp (map (soft_clip c) (tensor_row logits i))
                                - soft_clip c (tensor_row logits i ! nat (data targets ! i))
                           else 0) [0..<length (data targets)]\<rparr>"
proof -
  have N: "prod_list (shape targets) = length (data targets)"
    using assms(5) by (simp add: wf_tensor_def)
  have cast: "to_dtype dt = (\<lambda>x. x)" by (simp add: to_dtype_def fun_eq_iff)
  have "map (soft_clip c) (tensor_row logits i) ! nat (data targets ! i)
      = soft_clip c (tensor_row logits i ! nat (data targets ! i))"
    if "i < length (data targets)" "data msk ! i" for i
  proof -
    have "length (tensor_row logits i) = C"
      using length_tensor_row [OF assms(1) assms(4)] that(1) N by simp
    moreover have "nat (data targets ! i) < C" using assms(7) that by auto
    ultimately show ?thesis by simp
  qed
  then show ?thesis
    unfolding cross_entropy_value [OF assms] cast by simp
qed

text \<open>
  The gather is checked: a target outside \<open>[0, C)\<close> at a position where the mask is
  True makes the whole call fail.
\<close>

lemma cross_entropy_target_out_of_range:
  assumes sh: "shape logits = shape targets @ [C]" "shape msk = shape targets"
    and C: "0 < C"
    and wf: "wf_tensor logits" "wf_tensor targets" "wf_tensor msk"
    and i: "i < length (data targets)" "data msk ! i"
    and bad: "data targets ! i < 0 \<or> int C \<le> data targets ! i"
  shows "cross_entropy logits targets msk dt c = Inl RuntimeError"
proof -
  let ?N = "length (data targets)"
  let ?rows = "split_size C (data logits)"
  let ?safe = "where_fill (data msk) (data targets) 0"
  have N: "prod_list (shape targets) = ?N" "length (data msk) = ?N"
    using wf sh by (simp_all add: wf_tensor_def)
  note vr = view_rows_ok [OF sh(1) C wf(1), unfolded N]
  have len: "length ?rows = length ?safe" by (simp add: vr(2) length_where_fill N)
  have ir: "i < length ?rows" using i(1) by (simp add: vr(2))
  have "?safe ! i = data targets ! i" using i by (simp add: nth_where_fill N)
  moreover have "length (?rows ! i) = C" by (rule vr(4) [OF i(1)])
  ultimately have "\<not> (0 \<le> ?safe ! i \<and> ?safe ! i < int (length (?rows ! i)))"
    using bad by auto
  from ce_chunk_bad [OF len ir this]
  have "ce_chunk dt c ?rows ?safe = Inl RuntimeError" .
  then have "ce_loop dt c (zip (chunk ?rows 4) (chunk ?safe 4)) [] = Inl RuntimeError"
    using ce_loop_chunk [OF len, of 4 dt c] by (auto split: sum.splits)
  then show ?thesis
    using sh by (simp add: cross_entropy_def vr(1) Let_def)
qed

text \<open>
  C1.  For logits of shape \<open>[..., C]\<close> with \<open>C \<ge> 1\<close> classes (in particular \<open>[B, K, T, C]\<close>),
  targets and a mask of the shape without \<open>C\<close>, and targets that are class indices
  wherever the mask is True: \<open>cross_entropy\<close> returns a tensor of the targets' shape that is
  exactly 0 at every position where the mask is False.  Nothing is assumed about the
  targets and the logits at masked-out positions; such targets may lie outside
  \<open>[0, C)\<close> and are replaced by 0 before the gather, so that no error is raised.
\<close>

theorem cross_entropy_masked_zero:
  assumes "shape logits = shape targets @ [C]" and "shape msk = shape targets"
    and "0 < C"
    and "wf_tensor logits" and "wf_tensor targets" and "wf_tensor msk"
    and "\<forall>i<length (data targets). data msk ! i \<longrightarrow>
           0 \<le> data targets ! i \<and> data targets ! i < int C"
  shows "\<exists>ce. cross_entropy logits targets msk dt c = Inr ce
           \<and> shape ce = shape targets
           \<and> length (data ce) = length (data targets)
           \<and> (\<forall>i<length (data targets). \<not> data msk ! i \<longrightarrow> data ce ! i = 0)"
  by (simp add: cross_entropy_value2 [OF assms])

theorem cross_entropy_masked_zero_witness:
  "wf_tensor \<lparr>shape = [1, 1, 3, 2], data = [1, 2, 3, 4, 5, 6 :: real]\<rparr>
   \<and> wf_tensor \<lparr>shape = [1, 1, 3], data = [1, 99, - 5 :: int]\<rparr>
   \<and> wf_tensor \<lparr>shape = [1, 1, 3], data = [True, False, False]\<rparr>
   \<and> (\<exists>ce. cross_entropy \<lparr>shape = [1, 1, 3, 2], data = [1, 2, 3, 4, 5, 6]\<rparr>
               \<lparr>shape = [1, 1, 3], data = [1, 99, - 5]\<rparr>
               \<lparr>shape = [1, 1, 3], data = [True, False, False]\<rparr> Float32 None = Inr ce
             \<and> shape ce = [1, 1, 3] \<and> data ce ! 1 = 0 \<and> data ce ! 2 = 0)"
proof -
  let ?l = "\<lparr>shape = [1, 1, 3, 2], data = [1, 2, 3, 4, 5, 6 :: real]\<rparr>"
  let ?t = "\<lparr>shape = [1, 1, 3], data = [1, 99, - 5 :: int]\<rparr>"
  let ?m = "\<lparr>shape = [1, 1, 3], data = [True, False, False]\<rparr>"
  have wf: "wf_tensor ?l" "wf_tensor ?t" "wf_tensor ?m" by (simp_all add: wf_tensor_def)
  have rng: "\<forall>i<length (data ?t). data ?m ! i \<longrightarrow> 0 \<le> data ?t ! i \<and> data ?t ! i < int 2"
    by (simp add: nth_Cons split: nat.splits)
  from cross_entropy_masked_zero [of ?l ?t 2 ?m, OF _ _ _ wf rng, of Float32 None]
  obtain ce where "cross_entropy ?l ?t ?m Float32 None = Inr ce" "shape ce = [1, 1, 3]"
    "\<forall>i<3. \<not> data ?m ! i \<longrightarrow> data ce ! i = 0"
    by auto
  moreover from this(3) have "data ce ! 1 = 0" "data ce ! 2 = 0" by simp_all
  ultimately show ?thesis using wf by blast
qed

text \<open>
  C2.  Under the same conditions, the value returned at a position where the mask is True
  is the log of the sum of the exponentials of that row's (soft-clipped, when requested)
  logits minus the logit of the target class.  The instance below is the known case:
  three classes, logits \<open>[0, 0, 0]\<close>, target 1, mask True give \<open>ln 3\<close>.
\<close>

theorem cross_entropy_value_at_valid:
  assumes "shape logits = shape targets @ [C]" and "shape msk = shape targets"
    and "0 < C"
    and "wf_tensor logits" and "wf_tensor targets" and "wf_tensor msk"
    and "\<forall>i<length (data targets). data msk ! i \<longrightarrow>
           0 \<le> data targets ! i \<and> data targets ! i < int C"
  shows "\<exists>ce. cross_entropy logits targets msk dt c = Inr ce
           \<and> shape ce = shape targets
           \<and> length (data ce) = length (data targets)
           \<and> (\<forall>i<length (data targets). data msk ! i \<longrightarrow>
                 data ce ! i = logsumexp (map (soft_clip c) (tensor_row logits i))
                               - soft_clip c (tensor_row logits i ! nat (data targets ! i)))"
  by (simp add: cross_entropy_value2 [OF assms])

theorem cross_entropy_value_at_valid_witness:
  "cross_entropy \<lparr>shape = [1, 1, 1, 3], data = [0, 0, 0]\<rparr> \<lparr>shape = [1, 1, 1], data = [1]\<rparr>
     \<lparr>shape = [1, 1, 1], data = [True]\<rparr> Float32 None
   = Inr \<lparr>shape = [1, 1, 1], data = [ln 3]\<rparr>"
proof -
  let ?l = "\<lparr>shape = [1, 1, 1, 3], data = [0, 0, 0 :: real]\<rparr>"
  let ?t = "\<lparr>shape = [1, 1, 1], data = [1 :: int]\<rparr>"
  let ?m = "\<lparr>shape = [1, 1, 1], data = [True]\<rparr>"
  have wf: "wf_tensor ?l" "wf_tensor ?t" "wf_tensor ?m" by (simp_all add: wf_tensor_def)
  have rng: "\<forall>i<length (data ?t). data ?m ! i \<longrightarrow> 0 \<le> data ?t ! i \<and> data ?t ! i < int 3"
    by simp
  from cross_entropy_value_at_valid [of ?l ?t 3 ?m, OF _ _ _ wf rng, of Float32 None]
  obtain ce where ce: "cross_entropy ?l ?t ?m Float32 None = Inr ce" "shape ce = [1, 1, 1]"
    "length (data ce) = 1"
    "data ce ! 0 = logsumexp (map (soft_clip None) (tensor_row ?l 0))
                     - soft_clip None (tensor_row ?l 0 ! nat 1)"
    by auto
  have "data ce ! 0 = ln 3"
    unfolding ce(4) by (simp add: tensor_row_def soft_clip_def logsumexp_def)
  moreover from ce(3) obtain v where "data ce = [v]"
    by (cases "data ce") auto
  ultimately have "data ce = [ln 3]" by simp
  with ce(2) have "ce = \<lparr>shape = [1, 1, 1], data = [ln 3]\<rparr>" by (cases ce) simp
  with ce(1) show ?thesis by simp
qed

text \<open>
  The soft clip over the real numbers of this model: with \<open>c > 0\<close> every logit \<open>x\<close>
  becomes \<open>c * tanh (x / c)\<close>, of magnitude at most \<open>c\<close>, before the log-partition is
  computed; the value returned at a valid position is computed from the clipped logits,
  and every value returned lies in \<open>[0, 2 * c + ln C]\<close>, however large the input logits
  are.  The instance below has \<open>c = 30\<close> and a logit of \<open>10\<^sup>6\<close>.  Infinities and NaN are
  not values of the model, so this bound says nothing about their absence from a
  computation in floating-point arithmetic.
\<close>

lemma soft_clip_real_bound:
  assumes "shape logits = shape targets @ [C]" and "shape msk = shape targets"
    and "0 < C"
    and "wf_tensor logits" and "wf_tensor targets" and "wf_tensor msk"
    and "\<forall>i<length (data targets). data msk ! i \<longrightarrow>
           0 \<le> data targets ! i \<and> data targets ! i < int C"
    and "0 < c"
  shows "(\<forall>x. soft_clip (Some c) x = c * tanh (x / c) \<and> \<bar>soft_clip (Some c) x\<bar> \<le> c)
       \<and> (\<exists>ce. cross_entropy logits targets msk dt (Some c) = Inr ce
             \<and> length (data ce) = length (data targets)
             \<and> (\<forall>i<length (data targets).
                   (data msk ! i \<longrightarrow>
                      data ce ! i = logsumexp (map (soft_clip (Some c)) (tensor_row logits i))
                          - soft_clip (Some c) (tensor_row logits i ! nat (data targets ! i)))
                 \<and> 0 \<le> data ce ! i \<and> data ce ! i \<le> 2 * c + ln (real C)))"
proof -
  note a = assms(1-7)
  let ?N = "length (data targets)"
  have N: "prod_list (shape targets) = ?N"
    using assms(5) by (simp add: wf_tensor_def)
  have clip: "soft_clip (Some c) x = c * tanh (x / c) \<and> \<bar>soft_clip (Some c) x\<bar> \<le> c" for x
    using soft_clip_bound [OF assms(8), of x] by (simp add: soft_clip_def)
  let ?v = "\<lambda>i. logsumexp (map (soft_clip (Some c)) (tensor_row logits i))
                  - soft_clip (Some c) (tensor_row logits i ! nat (data targets ! i))"
  let ?ce = "\<lparr>shape = shape targets,
              data = map (\<lambda>i. if data msk ! i then ?v i else 0) [0..<?N]\<rparr>"
  have val: "0 \<le> ?v i \<and> ?v i \<le> 2 * c + ln (real C)"
    if i: "i < ?N" and m: "data msk ! i" for i
  proof -
    let ?row = "map (soft_clip (Some c)) (tensor_row logits i)"
    have len: "length (tensor_row logits i) = C"
      using length_tensor_row [OF assms(1) assms(4)] i N by simp
    have t: "nat (data targets ! i) < C" using assms(7) i m by auto
    have nth: "?row ! nat (data targets ! i)
                 = soft_clip (Some c) (tensor_row logits i ! nat (data targets ! i))"
      using len t by simp
    have lo: "?row ! nat (data targets ! i) \<le> logsumexp ?row"
      using len t by (intro logsumexp_ge_elem) simp
    have "?row \<noteq> []" using len assms(3) by auto
    moreover have "\<forall>x\<in>set ?row. x \<le> c"
    proof
      fix x assume "x \<in> set ?row"
      then obtain y where "x = soft_clip (Some c) y" by auto
      then show "x \<le> c" using soft_clip_bound [OF assms(8), of y] by simp
    qed
    ultimately have "logsumexp ?row \<le> c + ln (real (length ?row))"
      by (rule logsumexp_le_bound)
    then have hi: "logsumexp ?row \<le> c + ln (real C)" using len by simp
    have "- c \<le> ?row ! nat (data targets ! i)"
      unfolding nth using soft_clip_bound [OF assms(8), of "tensor_row logits i ! nat (data targets ! i)"]
      by simp
    with lo hi show ?thesis unfolding nth [symmetric] by simp
  qed
  have bnd: "0 \<le> 2 * c + ln (real C)" using assms(3,8) by simp
  have ce: "cross_entropy logits targets msk dt (Some c) = Inr ?ce"
    by (rule cross_entropy_value2 [OF a])
  have len: "length (data ?ce) = ?N" by simp
  have pt: "(data msk ! i \<longrightarrow> data ?ce ! i = ?v i)
             \<and> 0 \<le> data ?ce ! i \<and> data ?ce ! i \<le> 2 * c + ln (real C)" if "i < ?N" for i
  proof (cases "data msk ! i")
    case True
    then show ?thesis using that val [OF that True] by simp
  next
    case False
    then show ?thesis using that bnd by simp
  qed
  from ce len pt clip show ?thesis by blast
qed

lemma soft_clip_real_bound_instance:
  "wf_tensor \<lparr>shape = [1, 1, 1, 2], data = [1000000, 0 :: real]\<rparr>
   \<and> (0::real) < 30
   \<and> \<bar>soft_clip (Some 30) 1000000\<bar> \<le> 30
   \<and> (\<exists>ce. cross_entropy \<lparr>shape = [1, 1, 1, 2], data = [1000000, 0]\<rparr>
               \<lparr>shape = [1, 1, 1], data = [1]\<rparr>
               \<lparr>shape = [1, 1, 1], data = [True]\<rparr> Float32 (Some 30) = Inr ce
             \<and> 0 \<le> data ce ! 0 \<and> data ce ! 0 \<le> 60 + ln 2)"
proof -
  let ?l = "\<lparr>shape = [1, 1, 1, 2], data = [1000000, 0 :: real]\<rparr>"
  let ?t = "\<lparr>shape = [1, 1, 1], data = [1 :: int]\<rparr>"
  let ?m = "\<lparr>shape = [1, 1, 1], data = [True]\<rparr>"
  have wf: "wf_tensor ?l" "wf_tensor ?t" "wf_tensor ?m" by (simp_all add: wf_tensor_def)
  have rng: "\<forall>i<length (data ?t). data ?m ! i \<longrightarrow> 0 \<le> data ?t ! i \<and> data ?t ! i < int 2"
    by simp
  have c: "(0::real) < 30" by simp
  have sh: "shape ?l = shape ?t @ [2]" "shape ?m = shape ?t" "0 < (2::nat)" by simp_all
  note th = soft_clip_real_bound [OF sh wf rng c, of Float32]
  from th have "\<bar>soft_clip (Some 30) 1000000\<bar> \<le> 30" by blast
  moreover from th obtain ce where "cross_entropy ?l ?t ?m Float32 (Some 30) = Inr ce"
    "0 \<le> data ce ! 0 \<and> data ce ! 0 \<le> 60 + ln 2"
    by auto
  ultimately show ?thesis using wf by auto
qed

section \<open>Sorting and drawing\<close>

lemma split_size_concat:
  "0 < n \<Longrightarrow> \<forall>xs\<in>set xss. length xs = n \<Longrightarrow> split_size n (concat xss) = xss"
proof (induction xss)
  case Nil
  then show ?case by (simp add: split_size.simps [of n "[]"])
next
  case (Cons xs xss)
  then have "xs \<noteq> []" by auto
  with Cons show ?case by (subst split_size.simps) simp
qed

lemma sort_descending_idx:
  assumes "sort_descending row = (vals, idx)"
  shows "length idx = length row" and "set idx = {0..<length row}" and "distinct idx"
    and "vals = map (\<lambda>i. row ! i) idx" and "length vals = length row"
    and "mset vals = mset row"
proof -
  have idx: "idx = sort_key (\<lambda>i. - (row ! i)) [0..<length row]"
    and vals: "vals = map (\<lambda>i. row ! i) idx"
    using assms by (auto simp: sort_descending_def Let_def)
  show "length idx = length row" "set idx = {0..<length row}" "distinct idx"
    by (simp_all add: idx)
  show "vals = map (\<lambda>i. row ! i) idx" by (rule vals)
  show "length vals = length row" by (simp add: vals idx)
  have "mset idx = mset [0..<length row]" by (simp add: idx)
  then have "mset (map (\<lambda>i. row ! i) idx) = mset (map (\<lambda>i. row ! i) [0..<length row])"
    by (metis mset_map)
  then show "mset vals = mset row" by (simp add: vals map_nth)
qed

lemma sort_descending_sorted:
  assumes "sort_descending row = (vals, idx)" "i \<le> j" "j < length row"
  shows "vals ! j \<le> vals ! i"
proof -
  have idx: "idx = sort_key (\<lambda>i. - (row ! i)) [0..<length row]"
    and vals: "vals = map (\<lambda>i. row ! i) idx"
    using assms by (auto simp: sort_descending_def Let_def)
  have "sorted (map (\<lambda>i. - (row ! i)) idx)" unfolding idx by (rule sorted_sort_key)
  then have "map (\<lambda>i. - (row ! i)) idx ! i \<le> map (\<lambda>i. - (row ! i)) idx ! j"
    using assms(2,3) by (intro sorted_nth_mono) (simp_all add: idx)
  then show ?thesis using assms(2,3) by (simp add: vals idx)
qed

lemma sort_descending_nth:
  assumes "sort_descending row = (vals, idx)" "j < length row"
  shows "idx ! j < length row" and "vals ! j = row ! (idx ! j)"
proof -
  note p = sort_descending_idx [OF assms(1)]
  have "idx ! j \<in> set idx" using assms(2) p(1) by simp
  then show "idx ! j < length row" using p(2) by simp
  show "vals ! j = row ! (idx ! j)" using assms(2) p(1) by (simp add: p(4))
qed

text \<open>At most \<open>j\<close> classes are strictly more probable than the class at sorted position \<open>j\<close>.\<close>

lemma sort_descending_rank:
  assumes "sort_descending row = (vals, idx)" "j < length row"
  shows "length (filter (\<lambda>x. row ! (idx ! j) < x) row) \<le> j"
proof -
  note p = sort_descending_idx [OF assms(1)]
  let ?P = "\<lambda>x. vals ! j < x"
  have "length (filter ?P row) = size (filter_mset ?P (mset row))"
    by (metis mset_filter size_mset)
  also have "\<dots> = length (filter ?P vals)"
    by (metis p(6) mset_filter size_mset)
  also have "filter ?P vals = filter ?P (take j vals) @ filter ?P (drop j vals)"
    by (metis append_take_drop_id filter_append)
  also have "filter ?P (drop j vals) = []"
  proof -
    have "\<not> ?P x" if "x \<in> set (drop j vals)" for x
    proof -
      from that obtain m where m: "m < length (drop j vals)" "x = drop j vals ! m"
        by (auto simp: in_set_conv_nth)
      then have "x = vals ! (j + m)" "j + m < length row" using p(5) by auto
      then show ?thesis using sort_descending_sorted [OF assms(1), of j "j + m"] by simp
    qed
    then show ?thesis by (simp add: filter_empty_conv)
  qed
  finally have "length (filter ?P row) = length (filter ?P (take j vals))" by simp
  also have "\<dots> \<le> length (take j vals)" by (rule length_filter_le)
  also have "\<dots> \<le> j" by simp
  finally show ?thesis
    using sort_descending_nth(2) [OF assms] by simp
qed

lemma draw_from_positive:
  "\<forall>w\<in>set ws. 0 \<le> w \<Longrightarrow> 0 \<le> t \<Longrightarrow> t < sum_list ws \<Longrightarrow>
   draw_from ws t < length ws \<and> 0 < ws ! draw_from ws t"
proof (induction ws arbitrary: t)
  case Nil
  then show ?case by simp
next
  case (Cons w ws)
  show ?case
  proof (cases "t < w")
    case True
    with Cons.prems show ?thesis by simp
  next
    case False
    with Cons.prems have "0 \<le> t - w" "t - w < sum_list ws" "\<forall>w\<in>set ws. 0 \<le> w" by auto
    from Cons.IH [OF this(3,1,2)] False show ?thesis by simp
  qed
qed

lemma split_size_singletons: "split_size 1 xs = map (\<lambda>x. [x]) xs"
proof -
  have "split_size 1 (concat (map (\<lambda>x. [x]) xs)) = map (\<lambda>x. [x]) xs"
    by (rule split_size_concat) auto
  moreover have "concat (map (\<lambda>x. [x]) xs) = xs" by (induction xs) auto
  ultimately show ?thesis by simp
qed

lemma map_enumerate_nth:
  "map f (enumerate 0 xs) = map (\<lambda>r. f (r, xs ! r)) [0..<length xs]"
  by (rule nth_equalityI) (simp_all add: nth_enumerate_eq)

lemma torch_multinomial_one:
  assumes "0 < c" "c \<le> 2 ^ 24"
    and "\<forall>w\<in>set W. \<forall>x\<in>set w. 0 \<le> x" and "\<forall>w\<in>set W. sum_list w \<noteq> 0"
  shows "torch_multinomial c (map (map Some) W) 1 False gen =
           Inr (map (\<lambda>r. [draw_from (W ! r) (gen r * sum_list (W ! r))]) [0..<length W])"
proof -
  have the: "map (the \<circ> Some) w = w" for w :: "real list" by (induction w) auto
  have neg: "\<not> (\<exists>row\<in>set (map (map Some) W). \<exists>w\<in>set row. (case w of None \<Rightarrow> True | Some x \<Rightarrow> x < 0))"
    using assms(3) by (auto simp: not_less)
  have sum: "\<not> (\<exists>row\<in>set (map (map Some) W). sum_list (map the row) = 0)"
    using assms(4) by (auto simp: the)
  have c: "\<not> int c < 1" "\<not> (2::nat) ^ 24 < c" using assms(1,2) by simp_all
  have d1: "draws False w [u] = [draw_from w (u * sum_list w)]" if "sum_list w \<noteq> 0" for w u
    using that by (simp add: draws_def Let_def)
  have nz: "sum_list (W ! r) \<noteq> 0" if "r < length W" for r
    using assms(4) that by simp
  have "map (\<lambda>(r, row). draws False (map the row) (map (\<lambda>j. gen (r * nat 1 + j)) [0..<nat 1]))
            (enumerate 0 (map (map Some) W))
        = map (\<lambda>r. [draw_from (W ! r) (gen r * sum_list (W ! r))]) [0..<length W]"
    unfolding map_enumerate_nth by (rule nth_equalityI) (simp_all add: the d1 nz)
  then show ?thesis
    unfolding torch_multinomial_def using neg sum c by simp
qed

lemma multinomial_one:
  assumes "0 < c" "c \<le> 2 ^ 24" and "\<forall>w\<in>set W. length w = c"
    and "\<forall>w\<in>set W. \<forall>x\<in>set w. 0 \<le> x" and "\<forall>w\<in>set W. sum_list w \<noteq> 0"
    and "0 < prod_list s"
  shows "multinomial \<lparr>shape = s @ [c], data = concat (map (map Some) W)\<rparr> 1 False gen =
           Inr \<lparr>shape = s @ [1],
                data = map (\<lambda>r. draw_from (W ! r) (gen r * sum_list (W ! r))) [0..<length W]\<rparr>"
proof -
  have rows: "tensor_rows \<lparr>shape = s @ [c], data = concat (map (map Some) W)\<rparr> = map (map Some) W"
    using assms(1,3) by (simp add: tensor_rows_def split_size_concat)
  have cc: "concat (map (\<lambda>r. [f r]) xs) = map f xs" for f :: "nat \<Rightarrow> nat" and xs
    by (induction xs) auto
  show ?thesis
    unfolding multinomial_def rows
    using assms(1,6) torch_multinomial_one [OF assms(1,2,4,5), of gen]
    by (simp add: cc)
qed

lemma gather_rows_ok:
  "length I = length J \<Longrightarrow> \<forall>r<length I. \<forall>j\<in>set (J ! r). j < length (I ! r) \<Longrightarrow>
   gather_rows I J = Inr (map (\<lambda>(row, idx). map (\<lambda>j. row ! j) idx) (zip I J))"
proof (induction I arbitrary: J)
  case Nil
  then show ?case by simp
next
  case (Cons row I)
  then obtain idx J' where J: "J = idx # J'" by (cases J) auto
  from Cons.prems J have hd: "\<forall>j\<in>set idx. j < length row" by auto
  from Cons.prems J have tl: "\<forall>r<length I. \<forall>j\<in>set (J' ! r). j < length (I ! r)"
    by auto
  from Cons.prems J have len: "length I = length J'" by simp
  show ?case
    unfolding J using hd Cons.IH [OF len tl] by (auto simp: not_le)
qed

lemma gather_one:
  assumes "0 < c" and "\<forall>w\<in>set I. length w = c" and "length d = length I"
    and "\<forall>r<length I. d ! r < c"
  shows "gather \<lparr>shape = s @ [c], data = concat I\<rparr> \<lparr>shape = s @ [1], data = d\<rparr> =
           Inr \<lparr>shape = s @ [1], data = map (\<lambda>r. I ! r ! (d ! r)) [0..<length I]\<rparr>"
proof -
  have rows: "tensor_rows \<lparr>shape = s @ [c], data = concat I\<rparr> = I"
    using assms(1,2) by (simp add: tensor_rows_def split_size_concat)
  have irows: "tensor_rows \<lparr>shape = s @ [1], data = d\<rparr> = map (\<lambda>x. [x]) d"
    by (simp add: tensor_rows_def split_size_singletons [unfolded One_nat_def])
  have ok: "\<forall>r<length I. \<forall>j\<in>set (map (\<lambda>x. [x]) d ! r). j < length (I ! r)"
    using assms(2,3,4) by simp
  have cc: "concat (map (\<lambda>r. [f r]) xs) = map f xs" for f :: "nat \<Rightarrow> 'b" and xs
    by (induction xs) auto
  have "map (\<lambda>(row, idx). map (\<lambda>j. row ! j) idx) (zip I (map (\<lambda>x. [x]) d))
      = map (\<lambda>r. [I ! r ! (d ! r)]) [0..<length I]"
    using assms(3) by (intro nth_equalityI) simp_all
  then have "gather_rows I (map (\<lambda>x. [x]) d)
      = Inr (map (\<lambda>r. [I ! r ! (d ! r)]) [0..<length I])"
    using gather_rows_ok [OF _ ok] assms(3) by simp
  then show ?thesis
    unfolding gather_def rows irows by (simp add: cc)
qed

lemma torch_multinomial_bad:
  assumes "2 ^ 24 < c \<or> (\<exists>w\<in>set W. \<exists>x\<in>set w. x < 0) \<or> (\<exists>w\<in>set W. sum_list w = 0)"
  shows "torch_multinomial c (map (map Some) W) 1 False gen = Inl RuntimeError"
proof -
  have the: "map (the \<circ> Some) w = w" for w :: "real list" by (induction w) auto
  have neg: "(\<exists>row\<in>set (map (map Some) W). \<exists>w\<in>set row. (case w of None \<Rightarrow> True | Some x \<Rightarrow> x < 0))
      \<longleftrightarrow> (\<exists>w\<in>set W. \<exists>x\<in>set w. x < 0)"
    by auto
  have sum: "(\<exists>row\<in>set (map (map Some) W). sum_list (map the row) = 0)
      \<longleftrightarrow> (\<exists>w\<in>set W. sum_list w = 0)"
    by (auto simp: the)
  show ?thesis
    unfolding torch_multinomial_def neg sum using assms by auto
qed

lemma multinomial_one_eq:
  assumes "0 < c" and "\<forall>w\<in>set W. length w = c"
  shows "multinomial \<lparr>shape = s @ [c], data = concat (map (map Some) W)\<rparr> 1 False gen =
           (if c \<le> 2 ^ 24 \<and> (\<forall>w\<in>set W. \<forall>x\<in>set w. 0 \<le> x) \<and> (\<forall>w\<in>set W. sum_list w \<noteq> 0)
               \<and> 0 < prod_list s
            then Inr \<lparr>shape = s @ [1],
                      data = map (\<lambda>r. draw_from (W ! r) (gen r * sum_list (W ! r)))
                               [0..<length W]\<rparr>
            else Inl RuntimeError)"
proof -
  have rows: "tensor_rows \<lparr>shape = s @ [c], data = concat (map (map Some) W)\<rparr> = map (map Some) W"
    using assms by (simp add: tensor_rows_def split_size_concat)
  show ?thesis
  proof (cases "2 ^ 24 < c \<or> (\<exists>w\<in>set W. \<exists>x\<in>set w. x < 0) \<or> (\<exists>w\<in>set W. sum_list w = 0)")
    case True
    have "multinomial \<lparr>shape = s @ [c], data = concat (map (map Some) W)\<rparr> 1 False gen
            = Inl RuntimeError"
      unfolding multinomial_def rows using torch_multinomial_bad [OF True, of gen] assms(1)
      by simp
    moreover have "\<not> (c \<le> 2 ^ 24 \<and> (\<forall>w\<in>set W. \<forall>x\<in>set w. 0 \<le> x)
        \<and> (\<forall>w\<in>set W. sum_list w \<noteq> 0) \<and> 0 < prod_list s)"
      using True by (auto simp: not_le)
    ultimately show ?thesis by simp
  next
    case False
    then have ok: "c \<le> 2 ^ 24" "\<forall>w\<in>set W. \<forall>x\<in>set w. 0 \<le> x" "\<forall>w\<in>set W. sum_list w \<noteq> 0"
      by (auto simp: not_less)
    show ?thesis
    proof (cases "prod_list s = 0")
      case True
      have "multinomial \<lparr>shape = s @ [c], data = concat (map (map Some) W)\<rparr> 1 False gen
            = Inl RuntimeError"
        unfolding multinomial_def rows
        using True assms(1) torch_multinomial_one [OF assms(1) ok, of gen]
        by simp
      then show ?thesis using True by simp
    next
      case False
      then have "0 < prod_list s" by simp
      from multinomial_one [OF assms(1) ok(1) assms(2) ok(2,3) this, of gen] ok this
      show ?thesis by simp
    qed
  qed
qed

lemma gather_rows_bad:
  "length I = length J \<Longrightarrow> r < length I \<Longrightarrow> j \<in> set (J ! r) \<Longrightarrow> length (I ! r) \<le> j \<Longrightarrow>
   gather_rows I J = Inl RuntimeError"
proof (induction I arbitrary: J r)
  case Nil
  then show ?case by simp
next
  case (Cons row I)
  then obtain idx J' where J: "J = idx # J'" by (cases J) auto
  show ?case
  proof (cases "\<exists>j\<in>set idx. length row \<le> j")
    case True
    then show ?thesis unfolding J by simp
  next
    case False
    with Cons.prems J obtain r' where r: "r = Suc r'" by (cases r) auto
    with Cons.prems J have "gather_rows I J' = Inl RuntimeError"
      by (intro Cons.IH [of J' r']) auto
    then show ?thesis unfolding J using False by simp
  qed
qed

lemma gather_one_bad:
  assumes "0 < c" and "\<forall>w\<in>set I. length w = c" and "length d = length I"
    and "r < length I" and "c \<le> d ! r"
  shows "gather \<lparr>shape = s @ [c], data = concat I\<rparr> \<lparr>shape = s @ [1], data = d\<rparr> =
           Inl RuntimeError"
proof -
  have rows: "tensor_rows \<lparr>shape = s @ [c], data = concat I\<rparr> = I"
    using assms(1,2) by (simp add: tensor_rows_def split_size_concat)
  have irows: "tensor_rows \<lparr>shape = s @ [1], data = d\<rparr> = map (\<lambda>x. [x]) d"
    by (simp add: tensor_rows_def split_size_singletons [unfolded One_nat_def])
  have "gather_rows I (map (\<lambda>x. [x]) d) = Inl RuntimeError"
    using assms by (intro gather_rows_bad [of _ _ r "d ! r"]) simp_all
  then show ?thesis unfolding gather_def rows irows by simp
qed

lemma gather_one_eq:
  assumes "0 < c" and "\<forall>w\<in>set I. length w = c" and "length d = length I"
  shows "gather \<lparr>shape = s @ [c], data = concat I\<rparr> \<lparr>shape = s @ [1], data = d\<rparr> =
           (if \<forall>r<length I. d ! r < c
            then Inr \<lparr>shape = s @ [1], data = map (\<lambda>r. I ! r ! (d ! r)) [0..<length I]\<rparr>
            else Inl RuntimeError)"
proof (cases "\<forall>r<length I. d ! r < c")
  case True
  with gather_one [OF assms True, of s] show ?thesis by simp
next
  case False
  then obtain r where "r < length I" "c \<le> d ! r" by (auto simp: not_less)
  from gather_one_bad [OF assms this, of s] False show ?thesis by simp
qed

lemma tensor_rows_ok:
  assumes "shape t = s @ [C]" "0 < C" "wf_tensor t"
  shows "tensor_rows t = map (tensor_row t) [0..<prod_list s]"
proof -
  note vr = view_rows_ok [OF assms]
  have "tensor_rows t = split_size C (data t)" using assms(1) by (simp add: tensor_rows_def)
  also have "\<dots> = map (tensor_row t) [0..<prod_list s]"
    using assms(1) by (intro nth_equalityI) (simp_all add: vr tensor_row_def)
  finally show ?thesis .
qed

section \<open>What \<open>sample_top_k\<close> returns\<close>

lemma topk_ok:
  assumes "shape probs = s @ [C]" "0 \<le> k" "k \<le> int C"
  shows "topk probs k =
     Inr (\<lparr>shape = s @ [nat k],
           data = concat (map (\<lambda>row. take (nat k) (fst (sort_descending row))) (tensor_rows probs))\<rparr>,
          \<lparr>shape = s @ [nat k],
           data = concat (map (\<lambda>row. take (nat k) (snd (sort_descending row))) (tensor_rows probs))\<rparr>)"
proof -
  have a: "(\<lambda>(v, i). take (nat k) v) \<circ> sort_descending = (\<lambda>row. take (nat k) (fst (sort_descending row)))"
    by (auto simp: fun_eq_iff split: prod.splits)
  have b: "(\<lambda>(v, i). take (nat k) i) \<circ> sort_descending = (\<lambda>row. take (nat k) (snd (sort_descending row)))"
    by (auto simp: fun_eq_iff split: prod.splits)
  show ?thesis using assms by (simp add: topk_def Let_def a b)
qed

lemma sample_top_k_eq:
  assumes wf: "wf_tensor probs" and sh: "shape probs = s @ [C]" and k: "1 \<le> k"
  shows "sample_top_k probs k gen =
       (if k \<le> int C \<and> nat k \<le> 2 ^ 24 \<and> 0 < prod_list s
          \<and> (\<forall>r<prod_list s.
                (\<forall>x\<in>set (take (nat k) (fst (sort_descending (tensor_row probs r)))). 0 \<le> x)
              \<and> sum_list (take (nat k) (fst (sort_descending (tensor_row probs r)))) \<noteq> 0
              \<and> draw_from (take (nat k) (fst (sort_descending (tensor_row probs r))))
                   (gen r * sum_list (take (nat k) (fst (sort_descending (tensor_row probs r)))))
                  < nat k)
        then Inr \<lparr>shape = s @ [1],
                  data = map (\<lambda>r. top_k_draw (tensor_row probs r) (nat k) (gen r))
                           [0..<prod_list s]\<rparr>
        else Inl RuntimeError)"
proof (cases "k \<le> int C")
  case False
  then have "topk probs k = Inl RuntimeError" using sh by (simp add: topk_def)
  then show ?thesis using False by (simp add: sample_top_k_def)
next
  case True
  note kle = True
  let ?N = "prod_list s"
  let ?k = "nat k"
  define W where "W = map (\<lambda>r. take ?k (fst (sort_descending (tensor_row probs r)))) [0..<?N]"
  define I where "I = map (\<lambda>r. take ?k (snd (sort_descending (tensor_row probs r)))) [0..<?N]"
  define d where "d = map (\<lambda>r. draw_from (W ! r) (gen r * sum_list (W ! r))) [0..<length W]"
  have C: "0 < C" and kpos: "0 < ?k" and kC: "?k \<le> C" using True k by auto
  have rows: "tensor_rows probs = map (tensor_row probs) [0..<?N]"
    by (rule tensor_rows_ok [OF sh C wf])
  have lrow: "length (tensor_row probs r) = C" if "r < ?N" for r
    by (rule length_tensor_row [OF sh wf that])
  have tk: "topk probs k = Inr (\<lparr>shape = s @ [?k], data = concat W\<rparr>,
                                \<lparr>shape = s @ [?k], data = concat I\<rparr>)"
    using topk_ok [OF sh _ True] k by (simp add: rows comp_def W_def I_def)
  have lW: "\<forall>w\<in>set W. length w = ?k"
  proof
    fix w assume "w \<in> set W"
    then obtain r where r: "r < ?N" "w = take ?k (fst (sort_descending (tensor_row probs r)))"
      by (auto simp: W_def)
    have "length (fst (sort_descending (tensor_row probs r))) = C"
      using sort_descending_idx(5) [of "tensor_row probs r"] lrow [OF r(1)]
      by (metis prod.collapse)
    then show "length w = ?k" using r(2) kC by simp
  qed
  have lI: "\<forall>w\<in>set I. length w = ?k"
  proof
    fix w assume "w \<in> set I"
    then obtain r where r: "r < ?N" "w = take ?k (snd (sort_descending (tensor_row probs r)))"
      by (auto simp: I_def)
    have "length (snd (sort_descending (tensor_row probs r))) = C"
      using sort_descending_idx(1) [of "tensor_row probs r"] lrow [OF r(1)]
      by (metis prod.collapse)
    then show "length w = ?k" using r(2) kC by simp
  qed
  have st: "sample_top_k probs k gen =
      (case multinomial \<lparr>shape = s @ [?k], data = concat (map (map Some) W)\<rparr> 1 False gen of
         Inl e \<Rightarrow> Inl e
       | Inr next_token \<Rightarrow> gather \<lparr>shape = s @ [?k], data = concat I\<rparr> next_token)"
    unfolding sample_top_k_def tk by (simp add: map_concat)
  have len: "length W = ?N" "length I = ?N" "length d = length I"
    by (simp_all add: W_def I_def d_def)
  let ?A = "?k \<le> 2 ^ 24 \<and> (\<forall>w\<in>set W. \<forall>x\<in>set w. 0 \<le> x) \<and> (\<forall>w\<in>set W. sum_list w \<noteq> 0)
           \<and> 0 < ?N"
  let ?B = "\<forall>r<length I. d ! r < ?k"
  let ?out = "\<lparr>shape = s @ [1],
                  data = map (\<lambda>r. top_k_draw (tensor_row probs r) ?k (gen r)) [0..<?N]\<rparr>"
  have res: "map (\<lambda>r. I ! r ! (d ! r)) [0..<length I]
          = map (\<lambda>r. top_k_draw (tensor_row probs r) ?k (gen r)) [0..<?N]"
    by (rule nth_equalityI)
       (simp_all add: W_def I_def d_def top_k_draw_def Let_def split: prod.splits)
  have mn: "multinomial \<lparr>shape = s @ [?k], data = concat (map (map Some) W)\<rparr> 1 False gen =
      (if ?A then Inr \<lparr>shape = s @ [1], data = d\<rparr> else Inl RuntimeError)"
    unfolding d_def by (rule multinomial_one_eq [OF kpos lW])
  have ga: "gather \<lparr>shape = s @ [?k], data = concat I\<rparr> \<lparr>shape = s @ [1], data = d\<rparr> =
      (if ?B then Inr ?out else Inl RuntimeError)"
    unfolding res [symmetric] by (rule gather_one_eq [OF kpos lI len(3)])
  have eq: "sample_top_k probs k gen = (if ?A \<and> ?B then Inr ?out else Inl RuntimeError)"
    unfolding st mn using ga by (cases ?A) simp_all
  have Wr: "W ! r = take ?k (fst (sort_descending (tensor_row probs r)))" if "r < ?N" for r
    using that by (simp add: W_def)
  have A: "?A \<longleftrightarrow> ?k \<le> 2 ^ 24 \<and> 0 < ?N
      \<and> (\<forall>r<?N. (\<forall>x\<in>set (take ?k (fst (sort_descending (tensor_row probs r)))). 0 \<le> x)
              \<and> sum_list (take ?k (fst (sort_descending (tensor_row probs r)))) \<noteq> 0)"
    by (auto simp: W_def)
  have B: "?B \<longleftrightarrow> (\<forall>r<?N. draw_from (take ?k (fst (sort_descending (tensor_row probs r))))
                   (gen r * sum_list (take ?k (fst (sort_descending (tensor_row probs r)))))
                  < ?k)"
    by (simp add: len d_def Wr)
  show ?thesis unfolding eq A B using kle by (auto cong: if_cong)
qed

lemma sum_list_pos_elem:
  fixes xs :: "real list"
  shows "0 < sum_list xs \<Longrightarrow> \<exists>x\<in>set xs. 0 < x"
proof (induction xs)
  case Nil
  then show ?case by simp
next
  case (Cons a xs)
  then show ?case by (cases "0 < a") (auto simp: not_less)
qed

lemma sort_descending_nonneg:
  assumes "sort_descending row = (vals, idx)" "\<forall>x\<in>set row. 0 \<le> x"
  shows "\<forall>x\<in>set vals. 0 \<le> x"
  using sort_descending_idx(6) [OF assms(1)] assms(2) by (metis set_mset_mset)

lemma sort_descending_head_pos:
  assumes "sort_descending row = (vals, idx)" "0 < sum_list row"
  shows "0 < vals ! 0" and "row \<noteq> []"
proof -
  from sum_list_pos_elem [OF assms(2)] obtain x where x: "x \<in> set row" "0 < x" by blast
  then show "row \<noteq> []" by auto
  from x have "x \<in> set vals" using sort_descending_idx(6) [OF assms(1)] by (metis set_mset_mset)
  then obtain m where m: "m < length vals" "x = vals ! m" by (auto simp: in_set_conv_nth)
  then have "vals ! m \<le> vals ! 0"
    using sort_descending_sorted [OF assms(1), of 0 m] sort_descending_idx(5) [OF assms(1)]
    by simp
  with x m show "0 < vals ! 0" by simp
qed

lemma sum_take_pos:
  fixes vals :: "real list"
  assumes "\<forall>x\<in>set vals. 0 \<le> x" "0 < vals ! 0" "0 < k" "vals \<noteq> []"
  shows "0 < sum_list (take k vals)"
proof -
  have "\<forall>x\<in>set (take k vals). 0 \<le> x" using assms(1) by (auto dest: in_set_takeD)
  moreover have "0 < length (take k vals)" using assms(3,4) by simp
  ultimately have "take k vals ! 0 \<le> sum_list (take k vals)" by (rule elem_le_sum_list)
  then show ?thesis using assms(2,3) by simp
qed

lemma probability_rows_nth:
  assumes "probability_rows probs" "shape probs = s @ [C]" "0 < C" "wf_tensor probs"
    "r < prod_list s"
  shows "\<forall>x\<in>set (tensor_row probs r). 0 \<le> x" and "sum_list (tensor_row probs r) = 1"
proof -
  have "tensor_row probs r \<in> set (tensor_rows probs)"
    unfolding tensor_rows_ok [OF assms(2,3,4)] using assms(5) by simp
  then show "\<forall>x\<in>set (tensor_row probs r). 0 \<le> x" "sum_list (tensor_row probs r) = 1"
    using assms(1) by (auto simp: probability_rows_def)
qed

text \<open>
  C4.  For a well-formed probability tensor of shape \<open>[..., C]\<close> and \<open>k \<ge> 1\<close>: whenever
  \<open>sample_top_k\<close> returns, the result has the input shape with the last dimension replaced
  by 1; its entry for row \<open>r\<close> is the draw among the \<open>k\<close> largest probabilities of that
  row, used as weights as they are (\<open>top_k_draw\<close> divides by nothing), mapped back to a
  class index; and fewer than \<open>k\<close> classes of the row are strictly more probable than the
  class returned, so it is one of the \<open>k\<close> highest-probability classes.  It does return
  when \<open>k \<le> C\<close>, \<open>k \<le> 2\<^sup>2\<^sup>4\<close>, there is at least one row, the rows are probability
  rows and the generator yields variates in \<open>[0, 1)\<close>.
\<close>

theorem sample_top_k_support:
  assumes "wf_tensor probs" and "shape probs = s @ [C]" and "1 \<le> k"
  shows "(\<forall>out. sample_top_k probs k gen = Inr out \<longrightarrow>
            out = \<lparr>shape = s @ [1],
                   data = map (\<lambda>r. top_k_draw (tensor_row probs r) (nat k) (gen r))
                            [0..<prod_list s]\<rparr>
          \<and> (\<forall>r<prod_list s.
                data out ! r < C
              \<and> length (filter (\<lambda>x. tensor_row probs r ! (data out ! r) < x)
                          (tensor_row probs r)) < nat k))
       \<and> (k \<le> int C \<and> k \<le> 2 ^ 24 \<and> 0 < prod_list s \<and> probability_rows probs
            \<and> wf_generator gen
          \<longrightarrow> (\<exists>out. sample_top_k probs k gen = Inr out))"
proof (rule conjI)
  show "\<forall>out. sample_top_k probs k gen = Inr out \<longrightarrow>
            out = \<lparr>shape = s @ [1],
                   data = map (\<lambda>r. top_k_draw (tensor_row probs r) (nat k) (gen r))
                            [0..<prod_list s]\<rparr>
          \<and> (\<forall>r<prod_list s.
                data out ! r < C
              \<and> length (filter (\<lambda>x. tensor_row probs r ! (data out ! r) < x)
                          (tensor_row probs r)) < nat k)"
  proof (intro allI impI)
  fix out
  assume out: "sample_top_k probs k gen = Inr out"
  let ?out = "\<lparr>shape = s @ [1],
                 data = map (\<lambda>r. top_k_draw (tensor_row probs r) (nat k) (gen r))
                          [0..<prod_list s]\<rparr>"
  note eq = sample_top_k_eq [OF assms, of gen]
  from out eq have kC: "k \<le> int C"
    and dr: "\<forall>r<prod_list s. draw_from (take (nat k) (fst (sort_descending (tensor_row probs r))))
                   (gen r * sum_list (take (nat k) (fst (sort_descending (tensor_row probs r)))))
                  < nat k"
    and o: "out = ?out"
    by (auto split: if_splits)
  have "\<forall>r<prod_list s.
                data out ! r < C
              \<and> length (filter (\<lambda>x. tensor_row probs r ! (data out ! r) < x)
                          (tensor_row probs r)) < nat k"
  proof (intro allI impI)
    fix r assume r: "r < prod_list s"
    let ?row = "tensor_row probs r"
    obtain vals idx where sd: "sort_descending ?row = (vals, idx)" by (cases "sort_descending ?row")
    let ?j = "draw_from (take (nat k) vals) (gen r * sum_list (take (nat k) vals))"
    have len: "length ?row = C" by (rule length_tensor_row [OF assms(2,1) r])
    have j: "?j < nat k" using dr [rule_format, OF r] by (simp add: sd)
    then have jC: "?j < length ?row" using kC len by simp
    have "length idx = C" using sort_descending_idx(1) [OF sd] len by simp
    then have val: "data out ! r = idx ! ?j"
      using r j by (simp add: o top_k_draw_def sd Let_def)
    have "length (filter (\<lambda>x. ?row ! (idx ! ?j) < x) ?row) \<le> ?j"
      by (rule sort_descending_rank [OF sd jC])
    moreover have "idx ! ?j < C" using sort_descending_nth(1) [OF sd jC] len by simp
    ultimately show "data out ! r < C
              \<and> length (filter (\<lambda>x. ?row ! (data out ! r) < x) ?row) < nat k"
      unfolding val using j by simp
  qed
  with o show "out = ?out \<and> (\<forall>r<prod_list s.
                data out ! r < C
              \<and> length (filter (\<lambda>x. tensor_row probs r ! (data out ! r) < x)
                          (tensor_row probs r)) < nat k)" by blast
  qed
next
  show "k \<le> int C \<and> k \<le> 2 ^ 24 \<and> 0 < prod_list s \<and> probability_rows probs
            \<and> wf_generator gen
          \<longrightarrow> (\<exists>out. sample_top_k probs k gen = Inr out)"
  proof (rule impI)
  assume v: "k \<le> int C \<and> k \<le> 2 ^ 24 \<and> 0 < prod_list s \<and> probability_rows probs
            \<and> wf_generator gen"
  then have C: "0 < C" and kpos: "0 < nat k" using assms(3) by auto
  have "(\<forall>x\<in>set (take (nat k) (fst (sort_descending (tensor_row probs r)))). 0 \<le> x)
              \<and> sum_list (take (nat k) (fst (sort_descending (tensor_row probs r)))) \<noteq> 0
              \<and> draw_from (take (nat k) (fst (sort_descending (tensor_row probs r))))
                   (gen r * sum_list (take (nat k) (fst (sort_descending (tensor_row probs r)))))
                  < nat k" if r: "r < prod_list s" for r
  proof -
    let ?row = "tensor_row probs r"
    obtain vals idx where sd: "sort_descending ?row = (vals, idx)" by (cases "sort_descending ?row")
    let ?w = "take (nat k) vals"
    have pr: "\<forall>x\<in>set ?row. 0 \<le> x" "sum_list ?row = 1"
      using probability_rows_nth [OF _ assms(2) C assms(1) r] v by blast+
    have nn: "\<forall>x\<in>set vals. 0 \<le> x" by (rule sort_descending_nonneg [OF sd pr(1)])
    then have nnw: "\<forall>x\<in>set ?w. 0 \<le> x" by (auto dest: in_set_takeD)
    have hp: "0 < vals ! 0" "?row \<noteq> []"
      using sort_descending_head_pos [OF sd] pr(2) by simp_all
    then have "vals \<noteq> []" using sort_descending_idx(5) [OF sd] by auto
    then have pos: "0 < sum_list ?w" by (rule sum_take_pos [OF nn hp(1) kpos])
    have g: "0 \<le> gen r" "gen r < 1" using v by (auto simp: wf_generator_def)
    then have "0 \<le> gen r * sum_list ?w" "gen r * sum_list ?w < sum_list ?w"
      using pos by simp_all
    from draw_from_positive [OF nnw this]
    have "draw_from ?w (gen r * sum_list ?w) < nat k" by simp
    with nnw pos show ?thesis by (simp add: sd)
  qed
  moreover have "nat k \<le> 2 ^ 24" using v by (simp add: nat_le_iff)
  ultimately show "\<exists>out. sample_top_k probs k gen = Inr out"
    unfolding sample_top_k_eq [OF assms, of gen] using v by simp
  qed
qed

theorem sample_top_k_support_witness:
  "wf_tensor \<lparr>shape = [1, 3], data = [1/5, 1/2, 3/10 :: real]\<rparr>
   \<and> probability_rows \<lparr>shape = [1, 3], data = [1/5, 1/2, 3/10]\<rparr>
   \<and> wf_generator (constant_generator (9/10))
   \<and> sample_top_k \<lparr>shape = [1, 3], data = [1/5, 1/2, 3/10]\<rparr> 2 (constant_generator (9/10))
       = Inr \<lparr>shape = [1, 1], data = [2]\<rparr>
   \<and> length (filter (\<lambda>x. tensor_row \<lparr>shape = [1, 3], data = [1/5, 1/2, 3/10 :: real]\<rparr> 0 ! 2 < x)
               (tensor_row \<lparr>shape = [1, 3], data = [1/5, 1/2, 3/10]\<rparr> 0)) < nat 2"
proof -
  define P where "P = \<lparr>shape = [1, 3], data = [1/5, 1/2, 3/10 :: real]\<rparr>"
  define g where "g = constant_generator (9/10)"
  have wf: "wf_tensor P" by (simp add: wf_tensor_def P_def)
  have sh: "shape P = [1] @ [3]" by (simp add: P_def)
  have k: "(1::int) \<le> 2" by simp
  have rows: "tensor_rows P = [[1/5, 1/2, 3/10]]"
    by (simp add: tensor_rows_def split_size.simps P_def)
  have row: "tensor_row P 0 = [1/5, 1/2, 3/10]" by (simp add: tensor_row_def P_def)
  have pr: "probability_rows P" unfolding probability_rows_def rows by simp
  have g: "wf_generator g" by (simp add: wf_generator_def constant_generator_def g_def)
  have sd: "sort_descending [1/5, 1/2, 3/10 :: real] = ([1/2, 3/10, 1/5], [1, 2, 0])"
    by (simp add: sort_descending_def upt_conv_Cons)
  have dr: "top_k_draw (tensor_row P 0) 2 (g 0) = 2"
    unfolding row by (simp add: top_k_draw_def sd g_def constant_generator_def)
  note th = sample_top_k_support [OF wf sh k, of g]
  have valid: "2 \<le> int 3 \<and> (2::int) \<le> 2 ^ 24 \<and> 0 < prod_list [1::nat] \<and> probability_rows P
      \<and> wf_generator g"
    using pr g by simp
  from th valid obtain out where out: "sample_top_k P 2 g = Inr out" by blast
  with th have o: "out = \<lparr>shape = [1] @ [1],
                   data = map (\<lambda>r. top_k_draw (tensor_row P r) (nat 2) (g r))
                            [0..<prod_list [1]]\<rparr>"
    and rk: "\<forall>r<prod_list [1]. data out ! r < 3
              \<and> length (filter (\<lambda>x. tensor_row P r ! (data out ! r) < x)
                          (tensor_row P r)) < nat 2"
    by blast+
  have o': "out = \<lparr>shape = [1, 1], data = [2]\<rparr>"
    unfolding o by (simp add: dr)
  from rk have "length (filter (\<lambda>x. tensor_row P 0 ! (data out ! 0) < x)
                          (tensor_row P 0)) < nat 2" by simp
  then have "length (filter (\<lambda>x. tensor_row P 0 ! 2 < x) (tensor_row P 0)) < nat 2"
    unfolding o' by simp
  with wf pr g out o' show ?thesis unfolding P_def g_def by simp
qed

section \<open>Rounding to a floating-point type\<close>

text \<open>
  The exponent found by \<open>ilog2\<close> is the binary exponent; the rounding is odd, monotone,
  keeps the sign, and leaves the numbers of the type as they are.
\<close>

lemma ilog2_bounds:
  assumes "0 < x"
  shows "2 powi ilog2 x \<le> x" and "x < 2 powi (ilog2 x + 1)"
proof -
  have "2 powi ilog2 x \<le> x \<and> x < 2 powi (ilog2 x + 1)"
  proof (cases "1 \<le> x")
    case True
    define n where "n = \<lfloor>x\<rfloor>"
    have n: "1 \<le> n" "of_int n \<le> x" "x < of_int n + 1" using True by (auto simp: n_def)
    then have "0 < n" by simp
    from bitlen_bounds [OF this]
    have b: "2 ^ nat (bitlen n - 1) \<le> n" "n < 2 ^ nat (bitlen n)" by simp_all
    have b1: "1 \<le> bitlen n" using \<open>0 < n\<close> by (simp add: bitlen_alt_def)
    have e: "ilog2 x = bitlen n - 1" using True by (simp add: ilog2_def n_def)
    have "(2::real) powi (bitlen n - 1) = 2 ^ nat (bitlen n - 1)"
      using b1 by (simp add: power_int_def)
    also have "\<dots> = of_int (2 ^ nat (bitlen n - 1))" by simp
    also have "\<dots> \<le> of_int n" using b(1) by (simp only: of_int_le_iff)
    finally have lo: "2 powi (bitlen n - 1) \<le> x" using n(2) by simp
    have "n + 1 \<le> 2 ^ nat (bitlen n)" using b(2) by simp
    then have "real_of_int (n + 1) \<le> of_int (2 ^ nat (bitlen n))" by (simp only: of_int_le_iff)
    also have "\<dots> = 2 powi (bitlen n)" using b1 by (simp add: power_int_def)
    finally have hi: "x < 2 powi (bitlen n)" using n(3) by simp
    show ?thesis using lo hi by (simp add: e)
  next
    case False
    define y where "y = 1 / x"
    define m where "m = \<lceil>y\<rceil> - 1"
    have y: "1 < y" using False assms by (simp add: y_def)
    have m: "of_int m < y" "y \<le> of_int m + 1" by (simp_all add: m_def) linarith+
    have "1 < \<lceil>y\<rceil>" using y by linarith
    then have m0: "0 < m" by (simp add: m_def)
    from bitlen_bounds [OF this]
    have b: "2 ^ nat (bitlen m - 1) \<le> m" "m < 2 ^ nat (bitlen m)" by simp_all
    have b1: "1 \<le> bitlen m" using m0 by (simp add: bitlen_alt_def)
    have e: "ilog2 x = - bitlen m" using False by (simp add: ilog2_def m_def y_def)
    have "m + 1 \<le> 2 ^ nat (bitlen m)" using b(2) by simp
    then have "real_of_int (m + 1) \<le> of_int (2 ^ nat (bitlen m))" by (simp only: of_int_le_iff)
    then have "y \<le> 2 ^ nat (bitlen m)" using m(2) by simp
    then have "1 / 2 ^ nat (bitlen m) \<le> 1 / y" using y by (simp add: frac_le)
    moreover have "(2::real) powi (- bitlen m) = 1 / 2 ^ nat (bitlen m)"
      using b1 by (simp add: power_int_def field_simps)
    ultimately have lo: "2 powi (- bitlen m) \<le> x" using assms by (simp add: y_def)
    have "real_of_int (2 ^ nat (bitlen m - 1)) \<le> of_int m" using b(1) by (simp only: of_int_le_iff)
    then have "2 ^ nat (bitlen m - 1) \<le> real_of_int m" by simp
    then have "2 ^ nat (bitlen m - 1) < y" using m(1) by (rule le_less_trans)
    then have "1 / y < 1 / 2 ^ nat (bitlen m - 1)" by (simp add: frac_less2)
    moreover have "(2::real) powi (- bitlen m + 1) = 1 / 2 ^ nat (bitlen m - 1)"
      using b1 by (simp add: power_int_def field_simps)
    ultimately have hi: "x < 2 powi (- bitlen m + 1)" using assms by (simp add: y_def)
    show ?thesis using lo hi by (simp add: e)
  qed
  then show "2 powi ilog2 x \<le> x" and "x < 2 powi (ilog2 x + 1)" by simp_all
qed

lemma ilog2_unique:
  assumes "2 powi e \<le> x" and "x < 2 powi (e + 1)"
  shows "ilog2 x = e"
proof -
  have "(0::real) < 2 powi e" by (rule zero_less_power_int) simp
  then have x: "0 < x" using assms(1) by (rule less_le_trans)
  note b = ilog2_bounds [OF x]
  have "(2::real) powi e < 2 powi (ilog2 x + 1)" using assms(1) b(2) by simp
  then have "e < ilog2 x + 1"
    by (metis power_int_increasing not_less one_le_numeral)
  moreover have "(2::real) powi ilog2 x < 2 powi (e + 1)" using assms(2) b(1) by simp
  then have "ilog2 x < e + 1"
    by (metis power_int_increasing not_less one_le_numeral)
  ultimately show ?thesis by simp
qed

lemma ilog2_mono:
  assumes "0 < x" and "x \<le> y"
  shows "ilog2 x \<le> ilog2 y"
proof -
  have "(2::real) powi ilog2 x < 2 powi (ilog2 y + 1)"
    using ilog2_bounds(1) [OF assms(1)] ilog2_bounds(2) [of y] assms by simp
  then have "ilog2 x < ilog2 y + 1"
    by (metis power_int_increasing not_less one_le_numeral)
  then show ?thesis by simp
qed

lemma round_even_of_int: "round_even (of_int n) = n"
  by (simp add: round_even_def)

lemma round_even_cases:
  "round_even x = \<lfloor>x\<rfloor> \<and> x - of_int \<lfloor>x\<rfloor> \<le> 1 / 2
   \<or> round_even x = \<lfloor>x\<rfloor> + 1 \<and> 1 / 2 \<le> x - of_int \<lfloor>x\<rfloor>"
  by (auto simp: round_even_def Let_def)

lemma round_even_mono:
  assumes "x \<le> y"
  shows "round_even x \<le> round_even y"
proof (cases "\<lfloor>x\<rfloor> < \<lfloor>y\<rfloor>")
  case True
  then show ?thesis using round_even_cases [of x] round_even_cases [of y] by linarith
next
  case False
  then have eq: "\<lfloor>x\<rfloor> = \<lfloor>y\<rfloor>" using floor_mono [OF assms] by simp
  then have d: "x - of_int \<lfloor>x\<rfloor> \<le> y - of_int \<lfloor>y\<rfloor>" using assms by simp
  show ?thesis
    unfolding round_even_def Let_def using d eq by (auto split: if_splits)
qed

lemma round_even_minus: "round_even (- x) = - round_even x"
proof (cases "x = of_int \<lfloor>x\<rfloor>")
  case True
  then obtain n where "x = of_int n" ..
  then have "- x = of_int (- n)" by simp
  then show ?thesis unfolding \<open>x = of_int n\<close> by (simp only: round_even_of_int)
next
  case False
  moreover have "\<lfloor>- x\<rfloor> = - \<lceil>x\<rceil>" by (simp add: ceiling_def)
  ultimately have f: "\<lfloor>- x\<rfloor> = - \<lfloor>x\<rfloor> - 1" by (simp add: ceiling_altdef)
  show ?thesis
    unfolding round_even_def Let_def f by (auto split: if_splits simp: field_simps)
qed

lemma round_even_nonneg: "0 \<le> x \<Longrightarrow> 0 \<le> round_even x"
  using round_even_mono [of 0 x] round_even_of_int [of 0] by simp

lemma ulp_pos: "0 < ulp dt x"
  unfolding ulp_def by (rule zero_less_power_int) simp

lemma ulp_minus: "ulp dt (- x) = ulp dt x"
  by (simp add: ulp_def)

lemma float_round_zero: "float_round dt 0 = 0"
  by (simp add: float_round_def)

lemma float_round_minus: "float_round dt (- x) = - float_round dt x"
  by (simp add: float_round_def ulp_minus round_even_minus)

lemma float_round_nonneg:
  assumes "0 \<le> x"
  shows "0 \<le> float_round dt x"
proof -
  have "0 \<le> x / ulp dt x" using assms ulp_pos [of dt x] by simp
  then have "0 \<le> round_even (x / ulp dt x)" by (rule round_even_nonneg)
  then show ?thesis using ulp_pos [of dt x] by (simp add: float_round_def)
qed

lemma float_round_mono_pos:
  assumes x: "0 < x" and xy: "x \<le> y"
  shows "float_round dt x \<le> float_round dt y"
proof -
  define t where "t = int (precision dt)"
  define ex where "ex = max (ilog2 x) (emin dt)"
  define ey where "ey = max (ilog2 y) (emin dt)"
  have t: "1 \<le> t" unfolding t_def by (cases dt) simp_all
  have y: "0 < y" using x xy by simp
  have ux: "ulp dt x = 2 powi (ex - t + 1)" using x by (simp add: ulp_def ex_def t_def)
  have uy: "ulp dt y = 2 powi (ey - t + 1)" using y by (simp add: ulp_def ey_def t_def)
  have fx: "float_round dt x = of_int (round_even (x / 2 powi (ex - t + 1))) * 2 powi (ex - t + 1)"
    using x by (simp add: float_round_def ux)
  have fy: "float_round dt y = of_int (round_even (y / 2 powi (ey - t + 1))) * 2 powi (ey - t + 1)"
    using y by (simp add: float_round_def uy)
  have le: "ex \<le> ey" unfolding ex_def ey_def using ilog2_mono [OF x xy] by simp
  show ?thesis
  proof (cases "ex = ey")
    case True
    have "x / 2 powi (ey - t + 1) \<le> y / 2 powi (ey - t + 1)"
      using xy by (simp add: divide_right_mono)
    then have "round_even (x / 2 powi (ey - t + 1)) \<le> round_even (y / 2 powi (ey - t + 1))"
      by (rule round_even_mono)
    then show ?thesis unfolding fx fy True by (simp add: mult_right_mono)
  next
    case False
    then have lt: "ex < ey" using le by simp
    then have ey: "ey = ilog2 y" "emin dt < ey" unfolding ex_def ey_def by auto
    have pos: "(0::real) < 2 powi k" for k by (rule zero_less_power_int) simp
    have "x < 2 powi (ilog2 x + 1)" by (rule ilog2_bounds(2) [OF x])
    also have "\<dots> \<le> 2 powi (ex + 1)" by (rule power_int_increasing) (simp_all add: ex_def)
    finally have "x / 2 powi (ex - t + 1) \<le> 2 powi (ex + 1) / 2 powi (ex - t + 1)"
      by (simp add: divide_right_mono)
    also have "(2::real) powi (ex + 1) / 2 powi (ex - t + 1) = 2 powi t"
      by (simp flip: power_int_diff)
    also have "\<dots> = of_int (2 ^ nat t)" using t by (simp add: power_int_def)
    finally have "round_even (x / 2 powi (ex - t + 1)) \<le> round_even (of_int (2 ^ nat t))"
      by (rule round_even_mono)
    then have "real_of_int (round_even (x / 2 powi (ex - t + 1))) \<le> of_int (2 ^ nat t)"
      unfolding round_even_of_int by (simp only: of_int_le_iff)
    also have "real_of_int (2 ^ nat t) = 2 powi t" using t by (simp add: power_int_def)
    finally have "float_round dt x \<le> 2 powi t * 2 powi (ex - t + 1)"
      unfolding fx using pos [of "ex - t + 1"] by (simp add: mult_right_mono)
    also have "\<dots> = 2 powi (ex + 1)" by (simp flip: power_int_add)
    also have "\<dots> \<le> 2 powi ey" by (rule power_int_increasing) (use lt in simp_all)
    finally have a: "float_round dt x \<le> 2 powi ey" .
    have "2 powi ey \<le> y" unfolding ey(1) by (rule ilog2_bounds(1) [OF y])
    then have "2 powi ey / 2 powi (ey - t + 1) \<le> y / 2 powi (ey - t + 1)"
      by (simp add: divide_right_mono)
    moreover have "(2::real) powi ey / 2 powi (ey - t + 1) = 2 powi (t - 1)"
      by (simp flip: power_int_diff)
    moreover have "(2::real) powi (t - 1) = of_int (2 ^ nat (t - 1))"
      using t by (simp add: power_int_def)
    ultimately have "round_even (of_int (2 ^ nat (t - 1))) \<le> round_even (y / 2 powi (ey - t + 1))"
      by (intro round_even_mono) simp
    then have A: "real_of_int (2 ^ nat (t - 1)) \<le> of_int (round_even (y / 2 powi (ey - t + 1)))"
      unfolding round_even_of_int by (simp only: of_int_le_iff)
    have B: "real_of_int (2 ^ nat (t - 1)) = 2 powi (t - 1)"
      using t by (simp add: power_int_def)
    from A have "2 powi (t - 1) \<le> real_of_int (round_even (y / 2 powi (ey - t + 1)))"
      unfolding B .
    then have "2 powi (t - 1) * 2 powi (ey - t + 1) \<le> float_round dt y"
      unfolding fy using pos [of "ey - t + 1"] by (intro mult_right_mono) simp_all
    moreover have "(2::real) powi (t - 1) * 2 powi (ey - t + 1) = 2 powi ey"
      by (simp flip: power_int_add)
    ultimately have b: "2 powi ey \<le> float_round dt y" by simp
    from a b show ?thesis by simp
  qed
qed

lemma float_round_mono:
  assumes "x \<le> y"
  shows "float_round dt x \<le> float_round dt y"
proof -
  consider "0 < x" | "x \<le> 0" "0 \<le> y" | "y < 0" by linarith
  then show ?thesis
  proof cases
    case 1
    then show ?thesis using assms by (rule float_round_mono_pos)
  next
    case 2
    have "0 \<le> float_round dt (- x)" using 2(1) by (intro float_round_nonneg) simp
    then have "float_round dt x \<le> 0" by (simp add: float_round_minus)
    moreover have "0 \<le> float_round dt y" using 2(2) by (rule float_round_nonneg)
    ultimately show ?thesis by simp
  next
    case 3
    have "float_round dt (- y) \<le> float_round dt (- x)" using 3 assms by (intro float_round_mono_pos) simp_all
    then show ?thesis by (simp add: float_round_minus)
  qed
qed

lemma float_round_dyadic:
  assumes m: "\<bar>m\<bar> < 2 ^ precision dt" and e: "emin dt - int (precision dt) + 1 \<le> e"
  shows "float_round dt (of_int m * 2 powi e) = of_int m * 2 powi e"
proof (cases "m = 0")
  case True
  then show ?thesis by (simp add: float_round_def)
next
  case False
  define t where "t = int (precision dt)"
  define x :: real where "x = of_int m * 2 powi e"
  define E where "E = max (ilog2 \<bar>x\<bar>) (emin dt) - t + 1"
  have pos: "(0::real) < 2 powi k" for k by (rule zero_less_power_int) simp
  have x0: "x \<noteq> 0" using False pos [of e] by (simp add: x_def)
  then have ax: "0 < \<bar>x\<bar>" by simp
  have "real_of_int \<bar>m\<bar> < of_int (2 ^ precision dt)" using m by (simp only: of_int_less_iff)
  then have "real_of_int \<bar>m\<bar> < 2 powi t" by (simp add: t_def)
  then have "\<bar>x\<bar> < 2 powi t * 2 powi e"
    unfolding x_def abs_mult using pos [of e] by (simp add: mult_strict_right_mono)
  then have "\<bar>x\<bar> < 2 powi (t + e)" by (simp add: power_int_add)
  then have "(2::real) powi ilog2 \<bar>x\<bar> < 2 powi (t + e)"
    using ilog2_bounds(1) [OF ax] by simp
  then have "ilog2 \<bar>x\<bar> < t + e"
    by (metis power_int_increasing not_less one_le_numeral)
  then have E: "E \<le> e" using e unfolding E_def t_def by simp
  have u: "ulp dt x = 2 powi E" by (simp add: ulp_def E_def t_def)
  have "(2::real) powi e / 2 powi E = 2 powi (e - E)" by (simp flip: power_int_diff)
  also have "\<dots> = of_int (2 ^ nat (e - E))" using E by (simp add: power_int_def)
  finally have q: "(2::real) powi e / 2 powi E = of_int (2 ^ nat (e - E))" .
  have "x / 2 powi E = of_int m * (2 powi e / 2 powi E)" by (simp add: x_def)
  then have "x / 2 powi E = of_int (m * 2 ^ nat (e - E))" unfolding q by simp
  then have "round_even (x / 2 powi E) = m * 2 ^ nat (e - E)"
    by (simp only: round_even_of_int)
  moreover have "of_int (m * 2 ^ nat (e - E)) * 2 powi E = x"
    using \<open>x / 2 powi E = of_int (m * 2 ^ nat (e - E))\<close> pos [of E]
    by (metis less_irrefl nonzero_eq_divide_eq)
  ultimately have "float_round dt x = x" using x0 by (simp add: float_round_def u)
  then show ?thesis by (simp add: x_def)
qed

lemma smallest_positive_pos: "0 < smallest_positive dt"
  unfolding smallest_positive_def by (rule zero_less_power_int) simp

lemma smallest_positive_half:
  "smallest_positive dt / 2 = 2 powi (emin dt - int (precision dt))"
proof -
  have "(2::real) powi (emin dt - int (precision dt) + 1) = 2 powi (emin dt - int (precision dt)) * 2"
    by (rule power_int_add_1) simp
  then show ?thesis by (simp add: smallest_positive_def)
qed

lemma ulp_small:
  assumes "x \<noteq> 0" and "\<bar>x\<bar> < smallest_positive dt"
  shows "ulp dt x = smallest_positive dt"
proof -
  have t: "1 \<le> int (precision dt)" by (cases dt) simp_all
  have ax: "0 < \<bar>x\<bar>" using assms(1) by simp
  have "(2::real) powi ilog2 \<bar>x\<bar> < 2 powi (emin dt - int (precision dt) + 1)"
    using ilog2_bounds(1) [OF ax] assms(2) by (simp add: smallest_positive_def)
  then have "ilog2 \<bar>x\<bar> < emin dt - int (precision dt) + 1"
    by (metis power_int_increasing not_less one_le_numeral)
  then have "max (ilog2 \<bar>x\<bar>) (emin dt) = emin dt" using t by simp
  then show ?thesis by (simp add: ulp_def smallest_positive_def)
qed

lemma float_round_smallest_positive: "float_round dt (smallest_positive dt) = smallest_positive dt"
proof -
  have "(1::int) < 2 ^ precision dt" by (cases dt) simp_all
  then have "\<bar>1::int\<bar> < 2 ^ precision dt" by simp
  from float_round_dyadic [OF this, of "emin dt - int (precision dt) + 1"]
  show ?thesis by (simp add: smallest_positive_def)
qed

lemma float_round_small:
  assumes "\<bar>x\<bar> \<le> smallest_positive dt / 2"
  shows "float_round dt x = 0"
proof (cases "x = 0")
  case True
  then show ?thesis by (simp add: float_round_def)
next
  case False
  note sp = smallest_positive_pos [of dt]
  have lt: "\<bar>x\<bar> < smallest_positive dt" using assms sp by simp
  have u: "ulp dt v = smallest_positive dt" if "\<bar>v\<bar> = \<bar>x\<bar>" for v
    using ulp_small [of v dt] that False lt by auto
  have q: "0 < \<bar>x\<bar> / smallest_positive dt" "\<bar>x\<bar> / smallest_positive dt \<le> 1 / 2"
    using assms sp False by (simp_all add: field_simps)
  then have "\<lfloor>\<bar>x\<bar> / smallest_positive dt\<rfloor> = 0" by linarith
  then have r: "round_even (\<bar>x\<bar> / smallest_positive dt) = 0"
    using q by (simp add: round_even_def)
  have "float_round dt \<bar>x\<bar> = 0" using False by (simp add: float_round_def u r)
  then show ?thesis by (cases "0 \<le> x") (simp_all add: abs_if float_round_minus)
qed

lemma float_round_pos:
  assumes "smallest_positive dt / 2 < x"
  shows "0 < float_round dt x"
proof (cases "smallest_positive dt \<le> x")
  case True
  then have "float_round dt (smallest_positive dt) \<le> float_round dt x" by (rule float_round_mono)
  then show ?thesis using smallest_positive_pos [of dt] by (simp add: float_round_smallest_positive)
next
  case False
  note sp = smallest_positive_pos [of dt]
  have x: "0 < x" "x < smallest_positive dt" using assms False sp by simp_all
  have u: "ulp dt x = smallest_positive dt" using ulp_small [of x dt] x by simp
  have q: "1 / 2 < x / smallest_positive dt" "x / smallest_positive dt < 1"
    using assms x sp by (simp_all add: field_simps)
  then have "\<lfloor>x / smallest_positive dt\<rfloor> = 0" by linarith
  then have r: "round_even (x / smallest_positive dt) = 1"
    using q by (simp add: round_even_def)
  show ?thesis using x(1) sp by (simp add: float_round_def u r)
qed

lemma float_round_neg:
  assumes "x < - smallest_positive dt / 2"
  shows "float_round dt x < 0"
proof -
  have "0 < float_round dt (- x)" using assms by (intro float_round_pos) simp
  then show ?thesis by (simp add: float_round_minus)
qed

lemma float_round_threshold:
  "float_round dt x < 0 \<longleftrightarrow> x < - smallest_positive dt / 2"
proof
  assume "float_round dt x < 0"
  show "x < - smallest_positive dt / 2"
  proof (rule ccontr)
    assume "\<not> x < - smallest_positive dt / 2"
    then have "- smallest_positive dt / 2 \<le> x" by simp
    then have "0 \<le> float_round dt x"
    proof (cases "0 \<le> x")
      case True
      then show ?thesis by (rule float_round_nonneg)
    next
      case False
      with \<open>- smallest_positive dt / 2 \<le> x\<close> have "\<bar>x\<bar> \<le> smallest_positive dt / 2" by simp
      then show ?thesis by (simp add: float_round_small)
    qed
    with \<open>float_round dt x < 0\<close> show False by simp
  qed
qed (rule float_round_neg)

text \<open>
  A number of a type is an integer of fewer than \<open>precision\<close> bits times a power of two
  that is at least the spacing of the subnormal numbers; so it is also a number of the
  wider type its sums are accumulated in.
\<close>

lemma is_float_form:
  assumes "is_float dt x"
  shows "\<exists>m e. x = of_int m * 2 powi e \<and> \<bar>m\<bar> < 2 ^ precision dt
                \<and> emin dt - int (precision dt) + 1 \<le> e"
proof (cases "x = 0")
  case True
  have "x = of_int 0 * 2 powi (emin dt - int (precision dt) + 1)" using True by simp
  moreover have "\<bar>0::int\<bar> < 2 ^ precision dt" by simp
  ultimately show ?thesis by blast
next
  case False
  define t where "t = int (precision dt)"
  define E where "E = max (ilog2 \<bar>x\<bar>) (emin dt) - t + 1"
  define m where "m = round_even (x / ulp dt x)"
  have pos: "(0::real) < 2 powi k" for k by (rule zero_less_power_int) simp
  have u: "ulp dt x = 2 powi E" by (simp add: ulp_def E_def t_def)
  have x: "x = of_int m * 2 powi E"
    using assms False by (simp add: is_float_def float_round_def u m_def)
  have ax: "0 < \<bar>x\<bar>" using False by simp
  have "\<bar>x\<bar> < 2 powi (ilog2 \<bar>x\<bar> + 1)" by (rule ilog2_bounds(2) [OF ax])
  also have "\<dots> \<le> 2 powi (E + t)" by (rule power_int_increasing) (simp_all add: E_def)
  also have "\<dots> = 2 powi t * 2 powi E" by (simp add: power_int_add mult.commute)
  finally have "\<bar>real_of_int m\<bar> * 2 powi E < 2 powi t * 2 powi E"
    using pos [of E] by (simp add: x abs_mult)
  then have "\<bar>real_of_int m\<bar> < 2 powi t" using pos [of E] by simp
  also have "(2::real) powi t = of_int (2 ^ precision dt)" by (simp add: t_def)
  finally have "real_of_int \<bar>m\<bar> < of_int (2 ^ precision dt)" by simp
  then have "\<bar>m\<bar> < 2 ^ precision dt" by (simp only: of_int_less_iff)
  moreover have "emin dt - int (precision dt) + 1 \<le> E" by (simp add: E_def t_def)
  ultimately show ?thesis using x by blast
qed

lemma is_float_acc_type:
  assumes "is_float dt x"
  shows "is_float (acc_type dt) x"
proof -
  from is_float_form [OF assms] obtain m e
    where x: "x = of_int m * 2 powi e" and m: "\<bar>m\<bar> < 2 ^ precision dt"
      and e: "emin dt - int (precision dt) + 1 \<le> e"
    by blast
  have "(2::int) ^ precision dt \<le> 2 ^ precision (acc_type dt)"
    by (cases dt) simp_all
  with m have m': "\<bar>m\<bar> < 2 ^ precision (acc_type dt)" by (rule less_le_trans)
  have "emin (acc_type dt) - int (precision (acc_type dt)) + 1
          \<le> emin dt - int (precision dt) + 1"
    by (cases dt) simp_all
  with e have e': "emin (acc_type dt) - int (precision (acc_type dt)) + 1 \<le> e" by simp
  show ?thesis unfolding is_float_def x by (rule float_round_dyadic [OF m' e'])
qed

section \<open>What \<open>sample_top_p\<close> returns\<close>

lemma length_cumsum_from: "length (cumsum_from dt acc xs) = length xs"
  by (induction xs arbitrary: acc) (auto simp: Let_def)

lemma length_cumsum: "length (cumsum dt xs) = length xs"
  by (simp add: cumsum_def length_cumsum_from)

text \<open>A rounded running sum of non-negative numbers of the type is at least its last term.\<close>

lemma cumsum_from_ge:
  assumes "\<forall>x\<in>set xs. 0 \<le> x \<and> is_float dt x" and "0 \<le> acc" and "j < length xs"
  shows "xs ! j \<le> cumsum_from dt acc xs ! j"
  using assms
proof (induction xs arbitrary: acc j)
  case Nil
  then show ?case by simp
next
  case (Cons x xs)
  let ?c = "float_round (acc_type dt) (acc + x)"
  have x: "0 \<le> x" "float_round dt x = x" "float_round (acc_type dt) x = x"
    using Cons.prems(1) is_float_acc_type [of dt x] by (simp_all add: is_float_def)
  have ge: "x \<le> ?c"
    using float_round_mono [of x "acc + x" "acc_type dt"] Cons.prems(2) x(3) by simp
  have ge': "x \<le> float_round dt ?c"
    using float_round_mono [OF ge, of dt] x(2) by simp
  show ?case
  proof (cases j)
    case 0
    then show ?thesis using ge' by (simp add: Let_def)
  next
    case (Suc k)
    have "0 \<le> ?c" using ge x(1) by simp
    then have "xs ! k \<le> cumsum_from dt ?c xs ! k"
      using Cons.IH [of ?c k] Cons.prems(1,3) Suc by simp
    then show ?thesis using Suc by (simp add: Let_def)
  qed
qed

lemma cumsum_ge:
  assumes "\<forall>x\<in>set xs. 0 \<le> x \<and> is_float dt x" and "j < length xs"
  shows "xs ! j \<le> cumsum dt xs ! j"
  unfolding cumsum_def using assms(1) _ assms(2) by (rule cumsum_from_ge) simp

lemma cumsum_0:
  assumes "0 < length xs" and "is_float dt (xs ! 0)"
  shows "cumsum dt xs ! 0 = xs ! 0"
  using assms is_float_acc_type [of dt "xs ! 0"]
  by (cases xs) (simp_all add: cumsum_def is_float_def Let_def)

lemma length_top_p_mask: "length (top_p_mask dt p v) = length v"
  by (simp add: top_p_mask_def length_cumsum)

lemma nth_top_p_mask:
  assumes "j < length v"
  shows "top_p_mask dt p v ! j
           \<longleftrightarrow> float_round dt p < float_round dt (cumsum dt v ! j - v ! j)"
  using assms by (simp add: top_p_mask_def length_cumsum)

lemma length_top_p_masked: "length (top_p_masked dt p v) = length v"
  by (simp add: top_p_masked_def length_top_p_mask)

lemma nth_top_p_masked:
  assumes "j < length v"
  shows "top_p_masked dt p v ! j = (if top_p_mask dt p v ! j then 0 else v ! j)"
  using assms by (simp add: top_p_masked_def length_top_p_mask)

lemma top_p_masked_nonneg:
  assumes "\<forall>x\<in>set v. 0 \<le> x"
  shows "\<forall>x\<in>set (top_p_masked dt p v). 0 \<le> x"
proof
  fix x assume "x \<in> set (top_p_masked dt p v)"
  then obtain j where j: "j < length v" "x = top_p_masked dt p v ! j"
    by (auto simp: in_set_conv_nth length_top_p_masked)
  then show "0 \<le> x" using assms nth_top_p_masked [OF j(1), of dt p] by simp
qed

lemma top_p_survivors_iff:
  assumes "sort_descending row = (vals, idx)"
  shows "i \<in> top_p_survivors dt p row \<longleftrightarrow>
           (\<exists>j<length row. idx ! j = i \<and> top_p_masked dt p vals ! j \<noteq> 0)"
proof -
  note sd = sort_descending_idx [OF assms]
  have "i \<in> top_p_survivors dt p row \<longleftrightarrow>
        (\<exists>x. (x, i) \<in> set (zip (top_p_masked dt p vals) idx) \<and> x \<noteq> 0)"
    by (force simp: top_p_survivors_def assms)
  also have "\<dots> \<longleftrightarrow> (\<exists>j<length row. idx ! j = i \<and> top_p_masked dt p vals ! j \<noteq> 0)"
    by (auto simp: in_set_zip length_top_p_masked sd)
  finally show ?thesis .
qed

text \<open>
  The left side of the comparison of the mask does not depend on \<open>p\<close>, and the conversion
  of \<open>p\<close> to the type is monotone: a class masked under the larger threshold is masked
  under the smaller one.
\<close>

lemma top_p_survivors_mono:
  assumes "p1 \<le> p2"
  shows "top_p_survivors dt p1 row \<subseteq> top_p_survivors dt p2 row"
proof
  fix i assume i: "i \<in> top_p_survivors dt p1 row"
  obtain vals idx where sd: "sort_descending row = (vals, idx)" by (cases "sort_descending row")
  from i obtain j where j: "j < length row" "idx ! j = i" "top_p_masked dt p1 vals ! j \<noteq> 0"
    unfolding top_p_survivors_iff [OF sd] by blast
  have jv: "j < length vals" using j(1) sort_descending_idx(5) [OF sd] by simp
  from j(3) have "\<not> top_p_mask dt p1 vals ! j" "vals ! j \<noteq> 0"
    unfolding nth_top_p_masked [OF jv] by (auto split: if_splits)
  moreover have "float_round dt p1 \<le> float_round dt p2" using assms by (rule float_round_mono)
  ultimately have "\<not> top_p_mask dt p2 vals ! j" "vals ! j \<noteq> 0"
    unfolding nth_top_p_mask [OF jv] by simp_all
  then have "top_p_masked dt p2 vals ! j \<noteq> 0"
    unfolding nth_top_p_masked [OF jv] by simp
  with j show "i \<in> top_p_survivors dt p2 row"
    unfolding top_p_survivors_iff [OF sd] by blast
qed

lemma multinomial_nan:
  assumes "0 < c" and "\<forall>w\<in>set R. length w = c" and "\<exists>w\<in>set R. None \<in> set w"
  shows "multinomial \<lparr>shape = s @ [c], data = concat R\<rparr> 1 False gen = Inl RuntimeError"
proof -
  have rows: "tensor_rows \<lparr>shape = s @ [c], data = concat R\<rparr> = R"
    using assms(1,2) by (simp add: tensor_rows_def split_size_concat)
  have "\<exists>row\<in>set R. \<exists>w\<in>set row. (case w of None \<Rightarrow> True | Some x \<Rightarrow> x < 0)"
    using assms(3) by (metis option.simps(4))
  then have "torch_multinomial c R 1 False gen = Inl RuntimeError"
    unfolding torch_multinomial_def by simp
  then show ?thesis unfolding multinomial_def rows using assms(1) by simp
qed

lemma div_sum_Some:
  "sum_list xs \<noteq> 0 \<Longrightarrow> div_sum xs = map Some (map (\<lambda>x. x / sum_list xs) xs)"
  by (simp add: div_sum_def)

lemma div_sum_None:
  "sum_list xs = 0 \<Longrightarrow> div_sum xs = map (\<lambda>x. None) xs"
  by (simp add: div_sum_def)

lemma length_div_sum: "length (div_sum xs) = length xs"
  by (simp add: div_sum_def)

lemma top_p_draw_weights:
  "top_p_draw dt row p u =
     snd (sort_descending row)
       ! draw_from (top_p_weights dt p row) (u * sum_list (top_p_weights dt p row))"
  by (simp add: top_p_draw_def top_p_weights_def Let_def split: prod.splits)

lemma length_top_p_weights: "length (top_p_weights dt p row) = length row"
  using sort_descending_idx(5) [of row]
  by (simp add: top_p_weights_def Let_def length_top_p_masked) (metis prod.collapse)

lemma sum_list_div:
  fixes xs :: "real list"
  shows "sum_list (map (\<lambda>x. x / c) xs) = sum_list xs / c"
  by (induction xs) (simp_all add: add_divide_distrib)

lemma sample_top_p_eq:
  assumes wf: "wf_tensor probs" and sh: "shape probs = s @ [C]" and C: "0 < C"
  shows "sample_top_p dt probs p gen =
       (if C \<le> 2 ^ 24 \<and> 0 < prod_list s
          \<and> (\<forall>r<prod_list s.
                sum_list (top_p_masked dt p (fst (sort_descending (tensor_row probs r)))) \<noteq> 0
              \<and> (\<forall>x\<in>set (top_p_weights dt p (tensor_row probs r)). 0 \<le> x)
              \<and> draw_from (top_p_weights dt p (tensor_row probs r))
                   (gen r * sum_list (top_p_weights dt p (tensor_row probs r))) < C)
        then Inr \<lparr>shape = s @ [1],
                  data = map (\<lambda>r. top_p_draw dt (tensor_row probs r) p (gen r))
                           [0..<prod_list s]\<rparr>
        else Inl RuntimeError)"
proof -
  let ?N = "prod_list s"
  let ?M = "\<lambda>r. top_p_masked dt p (fst (sort_descending (tensor_row probs r)))"
  define R where "R = map (\<lambda>r. div_sum (?M r)) [0..<?N]"
  define W where "W = map (\<lambda>r. top_p_weights dt p (tensor_row probs r)) [0..<?N]"
  define I where "I = map (\<lambda>r. snd (sort_descending (tensor_row probs r))) [0..<?N]"
  define d where "d = map (\<lambda>r. draw_from (W ! r) (gen r * sum_list (W ! r))) [0..<length W]"
  have rows: "tensor_rows probs = map (tensor_row probs) [0..<?N]"
    by (rule tensor_rows_ok [OF sh C wf])
  have lrow: "length (tensor_row probs r) = C" if "r < ?N" for r
    by (rule length_tensor_row [OF sh wf that])
  have lM: "length (?M r) = C" if "r < ?N" for r
    using sort_descending_idx(5) [of "tensor_row probs r"] lrow [OF that]
    by (simp add: length_top_p_masked) (metis prod.collapse)
  have st: "sample_top_p dt probs p gen =
      (case multinomial \<lparr>shape = s @ [C], data = concat R\<rparr> 1 False gen of
         Inl e \<Rightarrow> Inl e
       | Inr next_token \<Rightarrow> gather \<lparr>shape = s @ [C], data = concat I\<rparr> next_token)"
  proof -
    have r1: "map (\<lambda>(v, i). div_sum (top_p_masked dt p v))
                (map sort_descending (tensor_rows probs)) = R"
      unfolding rows R_def by (simp add: case_prod_beta)
    have r2: "map snd (map sort_descending (tensor_rows probs)) = I"
      unfolding rows I_def by simp
    show ?thesis
      unfolding sample_top_p_def Let_def r1 r2 sh by (rule refl)
  qed
  have lR: "\<forall>w\<in>set R. length w = C" by (auto simp: R_def length_div_sum lM)
  have lW: "\<forall>w\<in>set W. length w = C" by (auto simp: W_def length_top_p_weights lrow)
  have lI: "\<forall>w\<in>set I. length w = C"
  proof
    fix w assume "w \<in> set I"
    then obtain r where r: "r < ?N" "w = snd (sort_descending (tensor_row probs r))"
      by (auto simp: I_def)
    show "length w = C"
      using sort_descending_idx(1) [of "tensor_row probs r"] lrow [OF r(1)]
      unfolding r(2) by (metis prod.collapse)
  qed
  have len: "length W = ?N" "length I = ?N" "length d = length I"
    by (simp_all add: W_def I_def d_def)
  let ?out = "\<lparr>shape = s @ [1],
                  data = map (\<lambda>r. top_p_draw dt (tensor_row probs r) p (gen r)) [0..<?N]\<rparr>"
  show ?thesis
  proof (cases "\<exists>r<?N. sum_list (?M r) = 0")
    case True
    then obtain r where r: "r < ?N" "sum_list (?M r) = 0" by blast
    have "?M r \<noteq> []" using lM [OF r(1)] C by auto
    then have "None \<in> set (div_sum (?M r))"
      unfolding div_sum_None [OF r(2)] by (cases "?M r") auto
    moreover have "div_sum (?M r) \<in> set R" using r(1) by (simp add: R_def)
    ultimately have "\<exists>w\<in>set R. None \<in> set w" by blast
    from multinomial_nan [OF C lR this, of s gen] True
    show ?thesis unfolding st by auto
  next
    case False
    then have nz: "sum_list (?M r) \<noteq> 0" if "r < ?N" for r using that by blast
    have "R = map (map Some) W"
      unfolding R_def W_def by (simp add: div_sum_Some nz top_p_weights_def Let_def)
    then have st': "sample_top_p dt probs p gen =
      (case multinomial \<lparr>shape = s @ [C], data = concat (map (map Some) W)\<rparr> 1 False gen of
         Inl e \<Rightarrow> Inl e
       | Inr next_token \<Rightarrow> gather \<lparr>shape = s @ [C], data = concat I\<rparr> next_token)"
      using st by simp
    let ?A = "C \<le> 2 ^ 24 \<and> (\<forall>w\<in>set W. \<forall>x\<in>set w. 0 \<le> x) \<and> (\<forall>w\<in>set W. sum_list w \<noteq> 0)
           \<and> 0 < ?N"
    let ?B = "\<forall>r<length I. d ! r < C"
    have res: "map (\<lambda>r. I ! r ! (d ! r)) [0..<length I]
          = map (\<lambda>r. top_p_draw dt (tensor_row probs r) p (gen r)) [0..<?N]"
      by (rule nth_equalityI) (simp_all add: W_def I_def d_def top_p_draw_weights)
    have mn: "multinomial \<lparr>shape = s @ [C], data = concat (map (map Some) W)\<rparr> 1 False gen =
      (if ?A then Inr \<lparr>shape = s @ [1], data = d\<rparr> else Inl RuntimeError)"
      unfolding d_def by (rule multinomial_one_eq [OF C lW])
    have ga: "gather \<lparr>shape = s @ [C], data = concat I\<rparr> \<lparr>shape = s @ [1], data = d\<rparr> =
      (if ?B then Inr ?out else Inl RuntimeError)"
      unfolding res [symmetric] by (rule gather_one_eq [OF C lI len(3)])
    have eq: "sample_top_p dt probs p gen = (if ?A \<and> ?B then Inr ?out else Inl RuntimeError)"
      unfolding st' mn using ga by (cases ?A) simp_all
    have sumW: "sum_list (top_p_weights dt p (tensor_row probs r)) = 1" if "r < ?N" for r
      using nz [OF that]
      by (simp add: top_p_weights_def Let_def sum_list_div)
    have A: "?A \<longleftrightarrow> C \<le> 2 ^ 24 \<and> 0 < ?N
      \<and> (\<forall>r<?N. \<forall>x\<in>set (top_p_weights dt p (tensor_row probs r)). 0 \<le> x)"
      using sumW by (auto simp: W_def)
    have B: "?B \<longleftrightarrow> (\<forall>r<?N. draw_from (top_p_weights dt p (tensor_row probs r))
                   (gen r * sum_list (top_p_weights dt p (tensor_row probs r))) < C)"
      by (simp add: len d_def W_def)
    show ?thesis unfolding eq A B using False by (auto cong: if_cong)
  qed
qed

text \<open>
  The first sorted class: the rounded difference the mask compares with the threshold is
  exactly 0 for it, so it is kept whenever the converted threshold is not negative.
\<close>

lemma top_p_row_facts:
  assumes sd: "sort_descending row = (vals, idx)"
    and nn: "\<forall>x\<in>set row. 0 \<le> x \<and> is_float dt x" and sum: "0 < sum_list row"
    and p: "0 \<le> float_round dt p"
  shows "top_p_masked dt p vals ! 0 = vals ! 0" and "0 < vals ! 0"
    and "\<forall>x\<in>set row. x \<le> vals ! 0"
    and "0 < sum_list (top_p_masked dt p vals)"
    and "cumsum dt vals ! 0 - vals ! 0 = 0" and "\<not> top_p_mask dt p vals ! 0"
proof -
  note i = sort_descending_idx [OF sd]
  note hp = sort_descending_head_pos [OF sd sum]
  have ne: "0 < length vals" using hp(2) i(5) by simp
  have "vals ! 0 \<in> set vals" using ne by simp
  then have "vals ! 0 \<in> set row" using i(6) by (metis set_mset_mset)
  then have "is_float dt (vals ! 0)" using nn by simp
  from cumsum_0 [OF ne this]
  show c0: "cumsum dt vals ! 0 - vals ! 0 = 0" by simp
  show nm: "\<not> top_p_mask dt p vals ! 0"
    unfolding nth_top_p_mask [OF ne] c0 using p by (simp add: float_round_zero)
  show top: "top_p_masked dt p vals ! 0 = vals ! 0"
    unfolding nth_top_p_masked [OF ne] using nm by simp
  show "0 < vals ! 0" by (rule hp(1))
  show "\<forall>x\<in>set row. x \<le> vals ! 0"
  proof
    fix x assume "x \<in> set row"
    then have "x \<in> set vals" using i(6) by (metis set_mset_mset)
    then obtain m where m: "m < length vals" "x = vals ! m" by (auto simp: in_set_conv_nth)
    then show "x \<le> vals ! 0"
      using sort_descending_sorted [OF sd, of 0 m] i(5) by simp
  qed
  have "\<forall>x\<in>set row. 0 \<le> x" using nn by simp
  then have "\<forall>x\<in>set (top_p_masked dt p vals). 0 \<le> x"
    by (intro top_p_masked_nonneg sort_descending_nonneg [OF sd])
  moreover have "0 < length (top_p_masked dt p vals)" using ne by (simp add: length_top_p_masked)
  ultimately have "top_p_masked dt p vals ! 0 \<le> sum_list (top_p_masked dt p vals)"
    by (rule elem_le_sum_list)
  then show "0 < sum_list (top_p_masked dt p vals)" using top hp(1) by simp
qed

lemma top_p_draw_survives:
  assumes sd: "sort_descending row = (vals, idx)"
    and nn: "\<forall>x\<in>set row. 0 \<le> x \<and> is_float dt x" and sum: "0 < sum_list row"
    and p: "0 \<le> float_round dt p"
    and u: "0 \<le> u" "u < 1"
  shows "\<forall>x\<in>set (top_p_weights dt p row). 0 \<le> x"
    and "draw_from (top_p_weights dt p row) (u * sum_list (top_p_weights dt p row)) < length row"
    and "top_p_draw dt row p u \<in> top_p_survivors dt p row"
    and "top_p_draw dt row p u < length row"
    and "\<exists>j<length row. row ! (top_p_draw dt row p u) = vals ! j
                       \<and> top_p_masked dt p vals ! j \<noteq> 0"
proof -
  let ?M = "top_p_masked dt p vals"
  let ?W = "top_p_weights dt p row"
  let ?j = "draw_from ?W (u * sum_list ?W)"
  note f = top_p_row_facts [OF sd nn sum p]
  have W: "?W = map (\<lambda>x. x / sum_list ?M) ?M" by (simp add: top_p_weights_def sd Let_def)
  have "\<forall>x\<in>set row. 0 \<le> x" using nn by simp
  then have Mnn: "\<forall>x\<in>set ?M. 0 \<le> x"
    by (intro top_p_masked_nonneg sort_descending_nonneg [OF sd])
  show Wnn: "\<forall>x\<in>set ?W. 0 \<le> x" unfolding W using Mnn f(4) by auto
  have sW: "sum_list ?W = 1" unfolding W using f(4) by (simp add: sum_list_div)
  have "0 \<le> u * sum_list ?W" "u * sum_list ?W < sum_list ?W" using u sW by simp_all
  from draw_from_positive [OF Wnn this]
  have j: "?j < length ?W" "0 < ?W ! ?j" by simp_all
  show jl: "?j < length row" using j(1) by (simp add: length_top_p_weights)
  have "?W ! ?j = ?M ! ?j / sum_list ?M" using j(1) unfolding W by simp
  then have nz: "?M ! ?j \<noteq> 0" using j(2) by auto
  have d: "top_p_draw dt row p u = idx ! ?j" by (simp add: top_p_draw_weights sd)
  have "\<exists>j<length row. idx ! j = idx ! ?j \<and> ?M ! j \<noteq> 0"
    using jl nz by (intro exI [of _ ?j]) simp
  then show "top_p_draw dt row p u \<in> top_p_survivors dt p row"
    unfolding top_p_survivors_iff [OF sd] d .
  show "top_p_draw dt row p u < length row"
    unfolding d by (rule sort_descending_nth(1) [OF sd jl])
  have "row ! (idx ! ?j) = vals ! ?j" using sort_descending_nth(2) [OF sd jl] by simp
  then show "\<exists>j<length row. row ! (top_p_draw dt row p u) = vals ! j \<and> ?M ! j \<noteq> 0"
    unfolding d using jl nz by (intro exI [of _ ?j]) simp
qed

lemma float_probability_rows_nth:
  assumes "float_probability_rows dt probs" "shape probs = s @ [C]" "0 < C" "wf_tensor probs"
    "r < prod_list s"
  shows "\<forall>x\<in>set (tensor_row probs r). 0 \<le> x \<and> is_float dt x"
    and "0 < sum_list (tensor_row probs r)"
proof -
  have "tensor_row probs r \<in> set (tensor_rows probs)"
    unfolding tensor_rows_ok [OF assms(2,3,4)] using assms(5) by simp
  then show "\<forall>x\<in>set (tensor_row probs r). 0 \<le> x \<and> is_float dt x"
    "0 < sum_list (tensor_row probs r)"
    using assms(1) by (auto simp: float_probability_rows_def)
qed

lemma sample_top_p_returns:
  assumes "wf_tensor probs" and "shape probs = s @ [C]" and "0 < C"
    and "float_probability_rows dt probs" and "0 \<le> float_round dt p"
    and v: "wf_generator gen \<and> C \<le> 2 ^ 24 \<and> 0 < prod_list s"
  shows "\<exists>out. sample_top_p dt probs p gen = Inr out
               \<and> shape out = s @ [1] \<and> length (data out) = prod_list s
               \<and> (\<forall>r<prod_list s.
                     data out ! r = top_p_draw dt (tensor_row probs r) p (gen r)
                   \<and> data out ! r \<in> top_p_survivors dt p (tensor_row probs r)
                   \<and> data out ! r < C
                   \<and> (\<exists>j<C. tensor_row probs r ! (data out ! r)
                               = fst (sort_descending (tensor_row probs r)) ! j
                           \<and> top_p_masked dt p (fst (sort_descending (tensor_row probs r))) ! j
                               \<noteq> 0))"
proof -
  let ?S = "\<lambda>r c. \<exists>j<C. tensor_row probs r ! c = fst (sort_descending (tensor_row probs r)) ! j
                \<and> top_p_masked dt p (fst (sort_descending (tensor_row probs r))) ! j \<noteq> 0"
  have pr: "\<forall>x\<in>set (tensor_row probs r). 0 \<le> x \<and> is_float dt x"
    "0 < sum_list (tensor_row probs r)"
    "length (tensor_row probs r) = C" if "r < prod_list s" for r
    using float_probability_rows_nth [OF assms(4,2,3,1) that]
      length_tensor_row [OF assms(2,1) that]
    by simp_all
  have row: "sum_list (top_p_masked dt p (fst (sort_descending (tensor_row probs r)))) \<noteq> 0
            \<and> (\<forall>x\<in>set (top_p_weights dt p (tensor_row probs r)). 0 \<le> x)
            \<and> draw_from (top_p_weights dt p (tensor_row probs r))
                 (gen r * sum_list (top_p_weights dt p (tensor_row probs r))) < C
            \<and> top_p_draw dt (tensor_row probs r) p (gen r)
                 \<in> top_p_survivors dt p (tensor_row probs r)
            \<and> top_p_draw dt (tensor_row probs r) p (gen r) < C
            \<and> ?S r (top_p_draw dt (tensor_row probs r) p (gen r))"
    if r: "r < prod_list s" for r
  proof -
    obtain vals idx where sd: "sort_descending (tensor_row probs r) = (vals, idx)"
      by (cases "sort_descending (tensor_row probs r)")
    have g: "0 \<le> gen r" "gen r < 1" using v by (auto simp: wf_generator_def)
    note f = top_p_row_facts [OF sd pr(1,2) [OF r] assms(5)]
    note d = top_p_draw_survives [OF sd pr(1,2) [OF r] assms(5) g]
    have "sum_list (top_p_masked dt p (fst (sort_descending (tensor_row probs r)))) \<noteq> 0"
      using f(4) by (simp add: sd)
    moreover have "?S r (top_p_draw dt (tensor_row probs r) p (gen r))"
      using d(5) unfolding pr(3) [OF r] by (simp add: sd)
    ultimately show ?thesis using d(1-4) unfolding pr(3) [OF r] by (intro conjI)
  qed
  let ?out = "\<lparr>shape = s @ [1],
                data = map (\<lambda>r. top_p_draw dt (tensor_row probs r) p (gen r))
                         [0..<prod_list s]\<rparr>"
  have "sample_top_p dt probs p gen = Inr ?out"
    unfolding sample_top_p_eq [OF assms(1,2,3), of dt p gen] using v row by simp
  moreover have "shape ?out = s @ [1]" "length (data ?out) = prod_list s" by simp_all
  moreover have "\<forall>r<prod_list s.
                   data ?out ! r = top_p_draw dt (tensor_row probs r) p (gen r)
                 \<and> data ?out ! r \<in> top_p_survivors dt p (tensor_row probs r)
                 \<and> data ?out ! r < C
                 \<and> ?S r (data ?out ! r)"
    using row by simp
  ultimately show ?thesis by blast
qed

text \<open>
  C3 (as amended).  For a well-formed tensor of probabilities stored in a floating type,
  with \<open>C \<ge> 1\<close> classes, and for \<open>p \<ge> 0\<close>, in every row: the sorted values are
  descending and are the row's values under the permutation; the class at sorted
  position \<open>j\<close> is masked, and zeroed, if and only if the rounded difference between the
  rounded running sum up to \<open>j\<close> and the probability at \<open>j\<close> exceeds \<open>p\<close> converted to the
  type; for the first sorted class that difference is exactly 0, so this class, which
  has the highest probability of the row, is not masked and keeps its positive
  probability, and the masked row has a positive sum to renormalise by.  With a generator
  of variates in \<open>[0, 1)\<close>, at most \<open>2\<^sup>2\<^sup>4\<close> classes and at least one row, \<open>sample_top_p\<close>
  returns a tensor of the input shape with last dimension 1 whose entry for a row is an
  original class index below \<open>C\<close>: the class behind a sorted position that kept a nonzero
  probability.  The class is identified by its probability, so that the statement does not
  depend on the order in which the sort leaves equal probabilities.
\<close>

theorem sample_top_p_keeps_top_class:
  assumes "wf_tensor probs" and "shape probs = s @ [C]" and "0 < C"
    and "float_probability_rows dt probs" and "0 \<le> p"
  shows "(\<forall>r<prod_list s. \<forall>vals idx.
            sort_descending (tensor_row probs r) = (vals, idx) \<longrightarrow>
              (\<forall>j<C. (\<forall>i\<le>j. vals ! j \<le> vals ! i)
                    \<and> idx ! j < C \<and> vals ! j = tensor_row probs r ! (idx ! j)
                    \<and> (top_p_mask dt p vals ! j
                         \<longleftrightarrow> float_round dt p < float_round dt (cumsum dt vals ! j - vals ! j))
                    \<and> top_p_masked dt p vals ! j
                        = (if top_p_mask dt p vals ! j then 0 else vals ! j))
            \<and> cumsum dt vals ! 0 - vals ! 0 = 0
            \<and> (\<forall>x\<in>set (tensor_row probs r). x \<le> vals ! 0)
            \<and> \<not> top_p_mask dt p vals ! 0
            \<and> top_p_masked dt p vals ! 0 = vals ! 0 \<and> 0 < vals ! 0
            \<and> 0 < sum_list (top_p_masked dt p vals))
       \<and> (wf_generator gen \<and> C \<le> 2 ^ 24 \<and> 0 < prod_list s \<longrightarrow>
            (\<exists>out. sample_top_p dt probs p gen = Inr out
               \<and> shape out = s @ [1] \<and> length (data out) = prod_list s
               \<and> (\<forall>r<prod_list s.
                     data out ! r < C
                   \<and> (\<exists>j<C. tensor_row probs r ! (data out ! r)
                               = fst (sort_descending (tensor_row probs r)) ! j
                           \<and> top_p_masked dt p (fst (sort_descending (tensor_row probs r))) ! j
                               \<noteq> 0))))"
proof (rule conjI)
  have fp: "0 \<le> float_round dt p" using assms(5) by (rule float_round_nonneg)
  have pr: "\<forall>x\<in>set (tensor_row probs r). 0 \<le> x \<and> is_float dt x"
    "0 < sum_list (tensor_row probs r)"
    "length (tensor_row probs r) = C" if "r < prod_list s" for r
    using float_probability_rows_nth [OF assms(4,2,3,1) that]
      length_tensor_row [OF assms(2,1) that]
    by simp_all
  show "\<forall>r<prod_list s. \<forall>vals idx.
            sort_descending (tensor_row probs r) = (vals, idx) \<longrightarrow>
              (\<forall>j<C. (\<forall>i\<le>j. vals ! j \<le> vals ! i)
                    \<and> idx ! j < C \<and> vals ! j = tensor_row probs r ! (idx ! j)
                    \<and> (top_p_mask dt p vals ! j
                         \<longleftrightarrow> float_round dt p < float_round dt (cumsum dt vals ! j - vals ! j))
                    \<and> top_p_masked dt p vals ! j
                        = (if top_p_mask dt p vals ! j then 0 else vals ! j))
            \<and> cumsum dt vals ! 0 - vals ! 0 = 0
            \<and> (\<forall>x\<in>set (tensor_row probs r). x \<le> vals ! 0)
            \<and> \<not> top_p_mask dt p vals ! 0
            \<and> top_p_masked dt p vals ! 0 = vals ! 0 \<and> 0 < vals ! 0
            \<and> 0 < sum_list (top_p_masked dt p vals)"
  proof (intro allI impI)
    fix r vals idx
    assume r: "r < prod_list s" and sd: "sort_descending (tensor_row probs r) = (vals, idx)"
    let ?row = "tensor_row probs r"
    note f = top_p_row_facts [OF sd pr(1,2) [OF r] fp]
    have lv: "length vals = C" using sort_descending_idx(5) [OF sd] pr(3) [OF r] by simp
    have per: "(\<forall>i\<le>j. vals ! j \<le> vals ! i)
                    \<and> idx ! j < C \<and> vals ! j = ?row ! (idx ! j)
                    \<and> (top_p_mask dt p vals ! j
                         \<longleftrightarrow> float_round dt p < float_round dt (cumsum dt vals ! j - vals ! j))
                    \<and> top_p_masked dt p vals ! j
                        = (if top_p_mask dt p vals ! j then 0 else vals ! j)" if j: "j < C" for j
    proof -
      have jr: "j < length ?row" "j < length vals" using j pr(3) [OF r] lv by simp_all
      have "\<forall>i\<le>j. vals ! j \<le> vals ! i"
        using sort_descending_sorted [OF sd _ jr(1)] by blast
      moreover have "idx ! j < C" "vals ! j = ?row ! (idx ! j)"
        using sort_descending_nth [OF sd jr(1)] pr(3) [OF r] by simp_all
      ultimately show ?thesis
        using nth_top_p_mask [OF jr(2), of dt p] nth_top_p_masked [OF jr(2), of dt p]
        by (intro conjI)
    qed
    have all: "\<forall>j<C. (\<forall>i\<le>j. vals ! j \<le> vals ! i)
                    \<and> idx ! j < C \<and> vals ! j = ?row ! (idx ! j)
                    \<and> (top_p_mask dt p vals ! j
                         \<longleftrightarrow> float_round dt p < float_round dt (cumsum dt vals ! j - vals ! j))
                    \<and> top_p_masked dt p vals ! j
                        = (if top_p_mask dt p vals ! j then 0 else vals ! j)"
      using per by (intro allI impI)
    from all f(5) f(3) f(6) f(1) f(2) f(4)
    show "(\<forall>j<C. (\<forall>i\<le>j. vals ! j \<le> vals ! i)
                    \<and> idx ! j < C \<and> vals ! j = ?row ! (idx ! j)
                    \<and> (top_p_mask dt p vals ! j
                         \<longleftrightarrow> float_round dt p < float_round dt (cumsum dt vals ! j - vals ! j))
                    \<and> top_p_masked dt p vals ! j
                        = (if top_p_mask dt p vals ! j then 0 else vals ! j))
            \<and> cumsum dt vals ! 0 - vals ! 0 = 0
            \<and> (\<forall>x\<in>set ?row. x \<le> vals ! 0)
            \<and> \<not> top_p_mask dt p vals ! 0
            \<and> top_p_masked dt p vals ! 0 = vals ! 0 \<and> 0 < vals ! 0
            \<and> 0 < sum_list (top_p_masked dt p vals)"
      by (intro conjI)
  qed
  show "wf_generator gen \<and> C \<le> 2 ^ 24 \<and> 0 < prod_list s \<longrightarrow>
            (\<exists>out. sample_top_p dt probs p gen = Inr out
               \<and> shape out = s @ [1] \<and> length (data out) = prod_list s
               \<and> (\<forall>r<prod_list s.
                     data out ! r < C
                   \<and> (\<exists>j<C. tensor_row probs r ! (data out ! r)
                               = fst (sort_descending (tensor_row probs r)) ! j
                           \<and> top_p_masked dt p (fst (sort_descending (tensor_row probs r))) ! j
                               \<noteq> 0)))"
  proof
    assume v: "wf_generator gen \<and> C \<le> 2 ^ 24 \<and> 0 < prod_list s"
    from sample_top_p_returns [OF assms(1-4) fp v]
    obtain out where out: "sample_top_p dt probs p gen = Inr out"
      "shape out = s @ [1]" "length (data out) = prod_list s"
      "\<forall>r<prod_list s.
         data out ! r = top_p_draw dt (tensor_row probs r) p (gen r)
       \<and> data out ! r \<in> top_p_survivors dt p (tensor_row probs r)
       \<and> data out ! r < C
       \<and> (\<exists>j<C. tensor_row probs r ! (data out ! r)
                   = fst (sort_descending (tensor_row probs r)) ! j
               \<and> top_p_masked dt p (fst (sort_descending (tensor_row probs r))) ! j \<noteq> 0)"
      by blast
    from out(4) have "\<forall>r<prod_list s.
         data out ! r < C
       \<and> (\<exists>j<C. tensor_row probs r ! (data out ! r)
                   = fst (sort_descending (tensor_row probs r)) ! j
               \<and> top_p_masked dt p (fst (sort_descending (tensor_row probs r))) ! j \<noteq> 0)"
      by blast
    with out(1-3) show "\<exists>out. sample_top_p dt probs p gen = Inr out
               \<and> shape out = s @ [1] \<and> length (data out) = prod_list s
               \<and> (\<forall>r<prod_list s.
                     data out ! r < C
                   \<and> (\<exists>j<C. tensor_row probs r ! (data out ! r)
                               = fst (sort_descending (tensor_row probs r)) ! j
                           \<and> top_p_masked dt p (fst (sort_descending (tensor_row probs r))) ! j
                               \<noteq> 0))"
      by (intro exI [of _ out] conjI)
  qed
qed

text \<open>
  The claim C3 as stated fails: the mask does not test the exclusive cumulative
  probability but a rounded difference of rounded sums.  In the row below, of three
  numbers of the 32-bit floating type that sum to 1, class 0 has probability \<open>3/8\<close> and
  comes second in the sort; the probability before it, \<open>3/8 + 2\<^sup>-\<^sup>2\<^sup>5\<close>, exceeds \<open>p = 3/8\<close>.
  The running sum \<open>3/4 + 2\<^sup>-\<^sup>2\<^sup>5\<close> is rounded to \<open>3/4\<close>, the difference is \<open>3/8\<close>, which does
  not exceed \<open>p\<close>: class 0 is not zeroed, and \<open>sample_top_p\<close> returns it.
\<close>

theorem sample_top_p_keeps_top_class_counterexample:
  "sort_descending [3/8, 3/8 + 1/2^25, 1/4 - 1/2^25]
     = ([3/8 + 1/2^25, 3/8, 1/4 - 1/2^25], [1, 0, 2])
   \<and> is_float Float32 (3/8) \<and> is_float Float32 (3/8 + 1/2^25)
   \<and> is_float Float32 (1/4 - 1/2^25)
   \<and> sum_list [3/8, 3/8 + 1/2^25, 1/4 - 1/2^25 :: real] = 1
   \<and> (3/8 :: real) < sum_list (take 1 [3/8 + 1/2^25, 3/8, 1/4 - 1/2^25])
   \<and> top_p_mask Float32 (3/8) [3/8 + 1/2^25, 3/8, 1/4 - 1/2^25] = [False, False, True]
   \<and> top_p_masked Float32 (3/8) [3/8 + 1/2^25, 3/8, 1/4 - 1/2^25] = [3/8 + 1/2^25, 3/8, 0]
   \<and> sample_top_p Float32 \<lparr>shape = [1, 3], data = [3/8, 3/8 + 1/2^25, 1/4 - 1/2^25]\<rparr> (3/8)
        (constant_generator (3/4)) = Inr \<lparr>shape = [1, 1], data = [0]\<rparr>"
proof -
  define a :: real where "a = 3/8 + 1/2^25"
  define b :: real where "b = 3/8"
  define c :: real where "c = 1/4 - 1/2^25"
  define P where "P = \<lparr>shape = [1, 3], data = [b, a, c]\<rparr>"
  define g where "g = constant_generator (3/4)"
  have ord: "c < b" "b < a" "0 < c" by (simp_all add: a_def b_def c_def)
  have sd: "sort_descending [b, a, c] = ([a, b, c], [1, 0, 2])"
    using ord by (simp add: sort_descending_def upt_conv_Cons)
  have fl: "is_float Float32 b" "is_float Float32 a" "is_float Float32 c"
    unfolding a_def b_def c_def by code_simp+
  have sum: "sum_list [b, a, c] = 1" by (simp add: a_def b_def c_def)
  have ex: "b < sum_list (take 1 [a, b, c])" using ord by simp
  have mk: "top_p_mask Float32 b [a, b, c] = [False, False, True]"
    unfolding a_def b_def c_def by code_simp
  have m: "top_p_masked Float32 b [a, b, c] = [a, b, 0]"
    by (simp add: top_p_masked_def mk)
  have wf: "wf_tensor P" by (simp add: wf_tensor_def P_def)
  have sh: "shape P = [1] @ [3]" by (simp add: P_def)
  have row: "tensor_row P 0 = [b, a, c]" by (simp add: tensor_row_def P_def)
  have ab: "0 < a + b" using ord by simp
  have w: "top_p_weights Float32 b [b, a, c] = [a / (a + b), b / (a + b), 0]"
    by (simp add: top_p_weights_def sd m Let_def)
  have sw: "sum_list (top_p_weights Float32 b [b, a, c]) = 1"
    unfolding w using ab by (simp add: add_divide_distrib [symmetric])
  have lt: "\<not> 3 / 4 < a / (a + b)" "3 / 4 - a / (a + b) < b / (a + b)"
    by (simp_all add: a_def b_def field_simps)
  have dj: "draw_from (top_p_weights Float32 b [b, a, c]) (g 0 * 1) = 1"
    unfolding w using lt by (simp add: g_def constant_generator_def)
  have dr: "top_p_draw Float32 (tensor_row P 0) b (g 0) = 0"
    unfolding row top_p_draw_weights sw dj by (simp add: sd)
  have nz: "sum_list (top_p_masked Float32 b (fst (sort_descending (tensor_row P 0)))) \<noteq> 0"
    unfolding row sd fst_conv m using ab by simp
  have wn: "\<forall>x\<in>set (top_p_weights Float32 b (tensor_row P 0)). 0 \<le> x"
    unfolding row w using ab ord by simp
  have dl: "draw_from (top_p_weights Float32 b (tensor_row P 0))
              (g 0 * sum_list (top_p_weights Float32 b (tensor_row P 0))) < 3"
    unfolding row sw dj by simp
  have cond: "(3::nat) \<le> 2 ^ 24 \<and> 0 < prod_list [1::nat]
          \<and> (\<forall>r<prod_list [1::nat].
                sum_list (top_p_masked Float32 b (fst (sort_descending (tensor_row P r)))) \<noteq> 0
              \<and> (\<forall>x\<in>set (top_p_weights Float32 b (tensor_row P r)). 0 \<le> x)
              \<and> draw_from (top_p_weights Float32 b (tensor_row P r))
                   (g r * sum_list (top_p_weights Float32 b (tensor_row P r))) < 3)"
  proof (intro conjI allI impI)
    fix r assume "r < prod_list [1::nat]"
    then have r: "r = 0" by simp
    show "sum_list (top_p_masked Float32 b (fst (sort_descending (tensor_row P r)))) \<noteq> 0"
      unfolding r by (rule nz)
    show "\<forall>x\<in>set (top_p_weights Float32 b (tensor_row P r)). 0 \<le> x"
      unfolding r by (rule wn)
    show "draw_from (top_p_weights Float32 b (tensor_row P r))
                   (g r * sum_list (top_p_weights Float32 b (tensor_row P r))) < 3"
      unfolding r by (rule dl)
  qed simp_all
  have "sample_top_p Float32 P b g
          = Inr \<lparr>shape = [1] @ [1],
                 data = map (\<lambda>r. top_p_draw Float32 (tensor_row P r) b (g r)) [0..<prod_list [1]]\<rparr>"
    unfolding sample_top_p_eq [OF wf sh, of Float32 b g, simplified] using cond by simp
  then have st: "sample_top_p Float32 P b g = Inr \<lparr>shape = [1, 1], data = [0]\<rparr>"
    by (simp add: dr)
  from sd fl sum ex mk m st show ?thesis
    unfolding P_def g_def a_def b_def c_def by (intro conjI)
qed

theorem sample_top_p_keeps_top_class_witness:
  "wf_tensor \<lparr>shape = [1, 4], data = [1/8, 1/2, 1/4, 1/8 :: real]\<rparr>
   \<and> float_probability_rows Float32 \<lparr>shape = [1, 4], data = [1/8, 1/2, 1/4, 1/8]\<rparr>
   \<and> wf_generator (constant_generator (9/10))
   \<and> sort_descending (tensor_row \<lparr>shape = [1, 4], data = [1/8, 1/2, 1/4, 1/8]\<rparr> 0)
       = ([1/2, 1/4, 1/8, 1/8], [1, 2, 0, 3])
   \<and> top_p_masked Float32 (1/2) [1/2, 1/4, 1/8, 1/8] = [1/2, 1/4, 0, 0]
   \<and> top_p_masked Float32 0 [1/2, 1/4, 1/8, 1/8] ! 0 = 1/2
   \<and> (\<exists>out v. sample_top_p Float32 \<lparr>shape = [1, 4], data = [1/8, 1/2, 1/4, 1/8]\<rparr> (1/2)
                (constant_generator (9/10)) = Inr out
            \<and> shape out = [1, 1] \<and> data out = [v] \<and> v < 4
            \<and> [1/8, 1/2, 1/4, 1/8 :: real] ! v \<in> {1/2, 1/4})"
proof -
  define P where "P = \<lparr>shape = [1, 4], data = [1/8, 1/2, 1/4, 1/8 :: real]\<rparr>"
  define g where "g = constant_generator (9/10)"
  have wf: "wf_tensor P" by (simp add: wf_tensor_def P_def)
  have sh: "shape P = [1] @ [4]" by (simp add: P_def)
  have C: "0 < (4::nat)" by simp
  have rows: "tensor_rows P = [[1/8, 1/2, 1/4, 1/8]]"
    by (simp add: tensor_rows_def split_size.simps P_def)
  have row: "tensor_row P 0 = [1/8, 1/2, 1/4, 1/8]" by (simp add: tensor_row_def P_def)
  have fl: "is_float Float32 (1/8)" "is_float Float32 (1/2)" "is_float Float32 (1/4)"
    by code_simp+
  have pr: "float_probability_rows Float32 P"
    unfolding float_probability_rows_def rows using fl by simp
  have g: "wf_generator g" by (simp add: wf_generator_def constant_generator_def g_def)
  have sd: "sort_descending (tensor_row P 0) = ([1/2, 1/4, 1/8, 1/8], [1, 2, 0, 3])"
    unfolding row by (simp add: sort_descending_def upt_conv_Cons)
  have p: "(0::real) \<le> 1/2" "(0::real) \<le> 0" by simp_all
  have mk: "top_p_mask Float32 (1/2) [1/2, 1/4, 1/8, 1/8] = [False, False, True, True]"
    by code_simp
  have m: "top_p_masked Float32 (1/2) [1/2, 1/4, 1/8, 1/8] = [1/2, 1/4, 0, 0]"
    by (simp add: top_p_masked_def mk)
  note th = sample_top_p_keeps_top_class [OF wf sh C pr p(1), of g]
  note th0 = sample_top_p_keeps_top_class [OF wf sh C pr p(2), of g]
  have r0: "0 < prod_list [1::nat]" by simp
  from th0 [THEN conjunct1, rule_format, OF r0 sd]
  have "top_p_masked Float32 0 [1/2, 1/4, 1/8, 1/8] ! 0 = [1/2, 1/4, 1/8, 1/8] ! 0"
    by (elim conjE)
  then have top: "top_p_masked Float32 0 [1/2, 1/4, 1/8, 1/8] ! 0 = 1/2" by simp
  have valid: "wf_generator g \<and> (4::nat) \<le> 2 ^ 24 \<and> 0 < prod_list [1::nat]"
    using g by simp
  from th [THEN conjunct2, rule_format, OF valid]
  obtain out where out: "sample_top_p Float32 P (1/2) g = Inr out"
    "shape out = [1] @ [1]" "length (data out) = prod_list [1]"
    "\<forall>r<prod_list [1]. data out ! r < 4
       \<and> (\<exists>j<4. tensor_row P r ! (data out ! r) = fst (sort_descending (tensor_row P r)) ! j
               \<and> top_p_masked Float32 (1/2) (fst (sort_descending (tensor_row P r))) ! j \<noteq> 0)"
    by blast
  from out(3) obtain v where v: "data out = [v]" by (cases "data out") auto
  from out(4) have v4: "v < 4"
    and "\<exists>j<4. tensor_row P 0 ! v = fst (sort_descending (tensor_row P 0)) ! j
               \<and> top_p_masked Float32 (1/2) (fst (sort_descending (tensor_row P 0))) ! j \<noteq> 0"
    by (simp_all add: v)
  then obtain j where j: "j < 4" "tensor_row P 0 ! v = [1/2, 1/4, 1/8, 1/8] ! j"
    "[1/2, 1/4, 0, 0 :: real] ! j \<noteq> 0"
    unfolding sd fst_conv m by blast
  from j(1) have "j = 0 \<or> j = 1 \<or> j = 2 \<or> j = 3" by linarith
  with j(3) have "j = 0 \<or> j = 1" by auto
  with j(2) have "tensor_row P 0 ! v \<in> {1/2, 1/4}" by auto
  then have "[1/8, 1/2, 1/4, 1/8 :: real] ! v \<in> {1/2, 1/4}" unfolding row .
  with out(1,2) v v4
  have "\<exists>out v. sample_top_p Float32 P (1/2) g = Inr out
            \<and> shape out = [1, 1] \<and> data out = [v] \<and> v < 4
            \<and> [1/8, 1/2, 1/4, 1/8 :: real] ! v \<in> {1/2, 1/4}"
    by auto
  with wf pr g sd m top show ?thesis unfolding P_def g_def by (intro conjI)
qed

text \<open>
  C5.  For every row and thresholds \<open>p1 < p2\<close>, the classes that keep a nonzero
  probability after the mask of \<open>sample_top_p\<close> under \<open>p1\<close> are among those that keep one
  under \<open>p2\<close>, whatever the floating type of the row.
\<close>

theorem top_p_nested_support:
  assumes "p1 < p2"
  shows "top_p_survivors dt p1 row \<subseteq> top_p_survivors dt p2 row"
  using top_p_survivors_mono [of p1 p2 dt row] assms by simp

theorem top_p_nested_support_witness:
  "(1/4 :: real) < 1/2
   \<and> top_p_survivors Float32 (1/4) [1/8, 1/2, 1/4, 1/8]
       \<subseteq> top_p_survivors Float32 (1/2) [1/8, 1/2, 1/4, 1/8]
   \<and> top_p_survivors Float32 (1/4) [1/8, 1/2, 1/4, 1/8] = {1}
   \<and> top_p_survivors Float32 (1/2) [1/8, 1/2, 1/4, 1/8] = {1, 2}"
proof -
  have lt: "(1/4 :: real) < 1/2" by simp
  have sd: "sort_descending [1/8, 1/2, 1/4, 1/8 :: real] = ([1/2, 1/4, 1/8, 1/8], [1, 2, 0, 3])"
    by (simp add: sort_descending_def upt_conv_Cons)
  have mk1: "top_p_mask Float32 (1/4) [1/2, 1/4, 1/8, 1/8] = [False, True, True, True]"
    by code_simp
  have mk2: "top_p_mask Float32 (1/2) [1/2, 1/4, 1/8, 1/8] = [False, False, True, True]"
    by code_simp
  have m1: "top_p_masked Float32 (1/4) [1/2, 1/4, 1/8, 1/8] = [1/2, 0, 0, 0]"
    by (simp add: top_p_masked_def mk1)
  have m2: "top_p_masked Float32 (1/2) [1/2, 1/4, 1/8, 1/8] = [1/2, 1/4, 0, 0]"
    by (simp add: top_p_masked_def mk2)
  have s1: "top_p_survivors Float32 (1/4) [1/8, 1/2, 1/4, 1/8] = {1}"
    by (force simp: top_p_survivors_def sd m1)
  have s2: "top_p_survivors Float32 (1/2) [1/8, 1/2, 1/4, 1/8] = {1, 2}"
    by (force simp: top_p_survivors_def sd m2)
  from top_p_nested_support [OF lt, of Float32 "[1/8, 1/2, 1/4, 1/8]"] lt s1 s2
  show ?thesis by simp
qed

section \<open>Degenerate sampling parameters\<close>

lemma sample_top_k_bad_k:
  assumes "shape probs = s @ [C]" and "k \<le> 0 \<or> int C < k"
  shows "sample_top_k probs k gen = Inl RuntimeError"
proof (cases "k < 0 \<or> int C < k")
  case True
  then have "topk probs k = Inl RuntimeError" using assms(1) by (simp add: topk_def)
  then show ?thesis by (simp add: sample_top_k_def)
next
  case False
  with assms(2) have k: "k = 0" by auto
  have "multinomial \<lparr>shape = s @ [0], data = d\<rparr> 1 False gen = Inl RuntimeError" for d
    by (simp add: multinomial_def)
  then show ?thesis
    using topk_ok [OF assms(1), of 0] by (simp add: sample_top_k_def k)
qed

lemma sum_list_all_zero:
  fixes xs :: "real list"
  shows "\<forall>x\<in>set xs. x = 0 \<Longrightarrow> sum_list xs = 0"
  by (induction xs) auto

text \<open>
  When the converted threshold is negative every class is masked: the rounded running sum
  is at least the probability it ends with, so the rounded difference is not negative.
\<close>

lemma top_p_masked_negative_p:
  assumes "\<forall>x\<in>set vals. 0 \<le> x \<and> is_float dt x" "float_round dt p < 0"
  shows "sum_list (top_p_masked dt p vals) = 0"
proof (rule sum_list_all_zero, rule ballI)
  fix x assume "x \<in> set (top_p_masked dt p vals)"
  then obtain j where j: "j < length vals" "x = top_p_masked dt p vals ! j"
    by (auto simp: in_set_conv_nth length_top_p_masked)
  have "0 \<le> cumsum dt vals ! j - vals ! j" using cumsum_ge [OF assms(1) j(1)] by simp
  then have "0 \<le> float_round dt (cumsum dt vals ! j - vals ! j)" by (rule float_round_nonneg)
  then have "top_p_mask dt p vals ! j" unfolding nth_top_p_mask [OF j(1)] using assms(2) by simp
  then show "x = 0" using j nth_top_p_masked [OF j(1), of dt p] by simp
qed

lemma sample_top_p_negative_p:
  assumes "wf_tensor probs" and "shape probs = s @ [C]"
    and "\<forall>x\<in>set (data probs). 0 \<le> x \<and> is_float dt x" and "float_round dt p < 0"
  shows "sample_top_p dt probs p gen = Inl RuntimeError"
proof (cases "C = 0")
  case True
  have "multinomial \<lparr>shape = s @ [0], data = d\<rparr> 1 False gen = Inl RuntimeError" for d
    by (simp add: multinomial_def)
  then show ?thesis using assms(2) True by (simp add: sample_top_p_def Let_def)
next
  case False
  then have C: "0 < C" by simp
  show ?thesis
  proof (cases "0 < prod_list s")
    case False
    then show ?thesis unfolding sample_top_p_eq [OF assms(1,2) C] by simp
  next
    case True
    let ?row = "tensor_row probs 0"
    obtain vals idx where sd: "sort_descending ?row = (vals, idx)"
      by (cases "sort_descending ?row")
    have "\<forall>x\<in>set ?row. 0 \<le> x \<and> is_float dt x"
      using assms(3) by (auto simp: tensor_row_def dest!: in_set_takeD in_set_dropD)
    then have "\<forall>x\<in>set vals. 0 \<le> x \<and> is_float dt x"
      using sort_descending_idx(6) [OF sd] by (metis set_mset_mset)
    then have "sum_list (top_p_masked dt p (fst (sort_descending ?row))) = 0"
      using top_p_masked_negative_p [OF _ assms(4)] by (simp add: sd)
    with True show ?thesis unfolding sample_top_p_eq [OF assms(1,2) C] by auto
  qed
qed

text \<open>
  C8 (as amended).  Neither sampling function checks its parameter.  For \<open>k \<le> 0\<close> or
  \<open>k\<close> above the number of classes \<open>sample_top_k\<close> fails with the error the tensor library
  raises.  \<open>sample_top_p\<close> fails likewise, every class being masked, when \<open>p\<close> converted to
  the floating type of the probabilities is negative, which is the case exactly for \<open>p\<close>
  below minus half the smallest positive number of the type; a negative \<open>p\<close> closer to
  zero is converted to zero and accepted.  From there on, and so for \<open>p \<ge> 1\<close>, nothing
  fails: the first sorted class is kept and \<open>sample_top_p\<close> returns a sample.
\<close>

theorem sampling_degenerate_parameters:
  assumes "wf_tensor probs" and "shape probs = s @ [C]"
  shows "(k \<le> 0 \<or> int C < k \<longrightarrow> sample_top_k probs k gen = Inl RuntimeError)
       \<and> (p < - smallest_positive dt / 2 \<and> (\<forall>x\<in>set (data probs). 0 \<le> x \<and> is_float dt x) \<longrightarrow>
            sample_top_p dt probs p gen = Inl RuntimeError)
       \<and> (- smallest_positive dt / 2 \<le> p \<and> 0 < C \<and> C \<le> 2 ^ 24 \<and> 0 < prod_list s
            \<and> float_probability_rows dt probs \<and> wf_generator gen \<longrightarrow>
            (\<exists>out. sample_top_p dt probs p gen = Inr out
                 \<and> shape out = s @ [1] \<and> length (data out) = prod_list s
                 \<and> (\<forall>r<prod_list s. data out ! r < C)))"
proof (intro conjI impI)
  assume "k \<le> 0 \<or> int C < k"
  then show "sample_top_k probs k gen = Inl RuntimeError"
    by (rule sample_top_k_bad_k [OF assms(2)])
next
  assume a: "p < - smallest_positive dt / 2 \<and> (\<forall>x\<in>set (data probs). 0 \<le> x \<and> is_float dt x)"
  then have "float_round dt p < 0" by (simp add: float_round_threshold)
  with a show "sample_top_p dt probs p gen = Inl RuntimeError"
    using sample_top_p_negative_p [OF assms] by blast
next
  assume v: "- smallest_positive dt / 2 \<le> p \<and> 0 < C \<and> C \<le> 2 ^ 24
            \<and> 0 < prod_list s \<and> float_probability_rows dt probs \<and> wf_generator gen"
  then have p: "0 \<le> float_round dt p" using float_round_threshold [of dt p] by simp
  from v have C: "0 < C" and pr: "float_probability_rows dt probs"
    and g: "wf_generator gen \<and> C \<le> 2 ^ 24 \<and> 0 < prod_list s"
    by simp_all
  from sample_top_p_returns [OF assms C pr p g]
  show "\<exists>out. sample_top_p dt probs p gen = Inr out
                 \<and> shape out = s @ [1] \<and> length (data out) = prod_list s
                 \<and> (\<forall>r<prod_list s. data out ! r < C)"
    by blast
qed

text \<open>
  The claim C8 as stated fails: with the degenerate \<open>p = 3/2\<close> the function returns a
  sample.
\<close>

theorem sampling_degenerate_parameters_counterexample:
  "sample_top_p Float32 \<lparr>shape = [1, 2], data = [3/4, 1/4]\<rparr> (3/2) (constant_generator (9/10))
     = Inr \<lparr>shape = [1, 1], data = [1]\<rparr>"
proof -
  define P where "P = \<lparr>shape = [1, 2], data = [3/4, 1/4 :: real]\<rparr>"
  define g where "g = constant_generator (9/10)"
  have shP: "shape P = [1, 2]" by (simp add: P_def)
  have rows: "tensor_rows P = [[3/4, 1/4]]"
    by (simp add: tensor_rows_def split_size.simps P_def)
  have sd: "sort_descending [3/4, 1/4 :: real] = ([3/4, 1/4], [0, 1])"
    by (simp add: sort_descending_def upt_conv_Cons)
  have mk: "top_p_mask Float32 (3/2) [3/4, 1/4] = [False, False]"
    by code_simp
  have m: "top_p_masked Float32 (3/2) [3/4, 1/4] = [3/4, 1/4]"
    by (simp add: top_p_masked_def mk)
  have dv: "div_sum [3/4, 1/4] = [Some (3/4), Some (1/4)]"
    by (simp add: div_sum_def)
  have step: "sample_top_p Float32 P (3/2) g =
      (case multinomial \<lparr>shape = shape P, data = [Some (3/4), Some (1/4)]\<rparr> 1 False g of
         Inl e \<Rightarrow> Inl e
       | Inr next_token \<Rightarrow> gather \<lparr>shape = shape P, data = [0, 1]\<rparr> next_token)"
    unfolding sample_top_p_def Let_def rows by (simp add: sd m dv cong: sum.case_cong)
  have rows2: "tensor_rows \<lparr>shape = [1, 2], data = [Some (3/4), Some (1/4 :: real)]\<rparr>
                 = [[Some (3/4), Some (1/4)]]"
    by (simp add: tensor_rows_def split_size.simps)
  have tm: "torch_multinomial 2 [[Some (3/4), Some (1/4)]] 1 False g = Inr [[1]]"
    by (simp add: torch_multinomial_def draws_def g_def constant_generator_def enumerate_eq_zip
          Let_def)
  have mn: "multinomial \<lparr>shape = [1, 2], data = [Some (3/4), Some (1/4)]\<rparr> 1 False g
              = Inr \<lparr>shape = [1, 1], data = [1]\<rparr>"
    unfolding multinomial_def rows2 by (simp add: tm)
  have rows3: "tensor_rows \<lparr>shape = [1, 2], data = [0, 1 :: nat]\<rparr> = [[0, 1]]"
    by (simp add: tensor_rows_def split_size.simps)
  have rows4: "tensor_rows \<lparr>shape = [1, 1], data = [1 :: nat]\<rparr> = [[1]]"
    by (simp add: tensor_rows_def split_size.simps)
  have ga: "gather \<lparr>shape = [1, 2], data = [0, 1 :: nat]\<rparr> \<lparr>shape = [1, 1], data = [1]\<rparr>
              = Inr \<lparr>shape = [1, 1], data = [1]\<rparr>"
    unfolding gather_def rows3 rows4 by simp
  have "sample_top_p Float32 P (3/2) g = Inr \<lparr>shape = [1, 1], data = [1]\<rparr>"
    unfolding step shP mn using ga by simp
  then show ?thesis unfolding P_def g_def .
qed

theorem sampling_degenerate_parameters_witness:
  "wf_tensor \<lparr>shape = [1, 2], data = [3/4, 1/4 :: real]\<rparr>
   \<and> float_probability_rows Float32 \<lparr>shape = [1, 2], data = [3/4, 1/4]\<rparr>
   \<and> wf_generator (constant_generator (9/10))
   \<and> sample_top_k \<lparr>shape = [1, 2], data = [3/4, 1/4]\<rparr> 0 (constant_generator (9/10))
       = Inl RuntimeError
   \<and> sample_top_k \<lparr>shape = [1, 2], data = [3/4, 1/4]\<rparr> 3 (constant_generator (9/10))
       = Inl RuntimeError
   \<and> sample_top_p Float32 \<lparr>shape = [1, 2], data = [3/4, 1/4]\<rparr> (- 1)
        (constant_generator (9/10)) = Inl RuntimeError
   \<and> (\<exists>out. sample_top_p Float32 \<lparr>shape = [1, 2], data = [3/4, 1/4]\<rparr> (- 1 / 10 ^ 50)
          (constant_generator (9/10)) = Inr out \<and> shape out = [1, 1])
   \<and> (\<exists>out. sample_top_p Float32 \<lparr>shape = [1, 2], data = [3/4, 1/4]\<rparr> 1
          (constant_generator (9/10)) = Inr out \<and> shape out = [1, 1])"
proof -
  define P where "P = \<lparr>shape = [1, 2], data = [3/4, 1/4 :: real]\<rparr>"
  define g where "g = constant_generator (9/10)"
  have wf: "wf_tensor P" by (simp add: wf_tensor_def P_def)
  have sh: "shape P = [1] @ [2]" by (simp add: P_def)
  have rows: "tensor_rows P = [[3/4, 1/4]]"
    by (simp add: tensor_rows_def split_size.simps P_def)
  have fl: "is_float Float32 (3/4)" "is_float Float32 (1/4)" by code_simp+
  have pr: "float_probability_rows Float32 P"
    unfolding float_probability_rows_def rows using fl by simp
  have g: "wf_generator g" by (simp add: wf_generator_def constant_generator_def g_def)
  have nn: "\<forall>x\<in>set (data P). 0 \<le> x \<and> is_float Float32 x" using fl by (simp add: P_def)
  have neg: "(- 1 :: real) < - smallest_positive Float32 / 2" by code_simp
  have tiny: "- smallest_positive Float32 / 2 \<le> (- 1 / 10 ^ 50 :: real)" by code_simp
  have k0: "sample_top_k P 0 g = Inl RuntimeError"
    using sampling_degenerate_parameters [OF wf sh, of 0 g] by simp
  have k3: "sample_top_k P 3 g = Inl RuntimeError"
    using sampling_degenerate_parameters [OF wf sh, of 3 g] by simp
  have pm: "sample_top_p Float32 P (- 1) g = Inl RuntimeError"
    using sampling_degenerate_parameters [OF wf sh, of _ g "- 1" Float32] nn neg by blast
  have valid: "0 < (2::nat) \<and> (2::nat) \<le> 2 ^ 24 \<and> 0 < prod_list [1::nat]
      \<and> float_probability_rows Float32 P \<and> wf_generator g"
    using pr g by simp
  from sampling_degenerate_parameters [OF wf sh, of 0 g "- 1 / 10 ^ 50" Float32] valid tiny
  obtain out where "sample_top_p Float32 P (- 1 / 10 ^ 50) g = Inr out" "shape out = [1] @ [1]"
    by blast
  then have pt: "\<exists>out. sample_top_p Float32 P (- 1 / 10 ^ 50) g = Inr out \<and> shape out = [1, 1]"
    by auto
  have one: "- smallest_positive Float32 / 2 \<le> (1::real)"
    using smallest_positive_pos [of Float32] by simp
  from sampling_degenerate_parameters [OF wf sh, of 0 g 1 Float32] valid one
  obtain out where "sample_top_p Float32 P 1 g = Inr out" "shape out = [1] @ [1]" by blast
  then have p1: "\<exists>out. sample_top_p Float32 P 1 g = Inr out \<and> shape out = [1, 1]" by auto
  from wf pr g k0 k3 pm pt p1 show ?thesis unfolding P_def g_def by (intro conjI)
qed

section \<open>The hash trick\<close>

lemma hex_value_hex_digit_all: "\<forall>n\<in>set [0..<16]. hex_value (hex_digit n) = Some n"
  by code_simp

lemma hex_value_hex_digit: "n < 16 \<Longrightarrow> hex_value (hex_digit n) = Some n"
  using hex_value_hex_digit_all by simp

lemma int16_from_hexdigest: "int16_from acc (hexdigest bs) = Inr (be_value acc bs)"
proof (induction bs arbitrary: acc)
  case Nil
  then show ?case by (simp add: hexdigest_def)
next
  case (Cons b bs)
  let ?hi = "unat b div 16" and ?lo = "unat b mod 16"
  have "unat b < 2 ^ LENGTH(8)" by (rule unsigned_less)
  then have lt: "?hi < 16" "?lo < 16"
    by (simp_all add: less_mult_imp_div_less)
  have "?hi * 16 + ?lo = unat b" by (rule div_mult_mod_eq)
  then have "int (?hi * 16 + ?lo) = int (unat b)" by (rule arg_cong)
  moreover have "int (?hi * 16 + ?lo) = int ?hi * 16 + int ?lo"
    by (simp only: of_nat_add of_nat_mult of_nat_numeral)
  moreover have "uint b = int (unat b)" by (rule uint_nat)
  ultimately have split: "int ?hi * 16 + int ?lo = uint b" by (simp only:)
  have alg: "(acc * 16 + x) * 16 + y = acc * 256 + (x * 16 + y)" for x y :: int
    by (simp add: algebra_simps)
  have acc: "(acc * 16 + int ?hi) * 16 + int ?lo = acc * 256 + uint b"
    unfolding alg split ..
  have hd: "hexdigest (b # bs) = hex_digit ?hi # hex_digit ?lo # hexdigest bs"
    by (simp add: hexdigest_def)
  have "int16_from acc (hexdigest (b # bs))
      = int16_from ((acc * 16 + int ?hi) * 16 + int ?lo) (hexdigest bs)"
    unfolding hd by (simp add: hex_value_hex_digit lt)
  also have "\<dots> = Inr (be_value (acc * 256 + uint b) bs)"
    unfolding acc by (rule Cons.IH)
  finally show ?case by simp
qed

lemma length_sha256_block: "length hs = 8 \<Longrightarrow> length (sha256_block hs block) = 8"
  by (simp add: sha256_block_def Let_def split: prod.splits)

lemma length_foldl_sha256_block:
  "length hs = 8 \<Longrightarrow> length (foldl sha256_block hs blocks) = 8"
  by (induction blocks arbitrary: hs) (simp_all add: length_sha256_block)

lemma length_sha256: "length (sha256 msg) = 32"
proof -
  have "length (foldl sha256_block sha256_h0 (split_size 64 (sha256_pad msg))) = 8"
    by (rule length_foldl_sha256_block) (simp add: sha256_h0_def)
  moreover have "length (concat (map word_bytes ws)) = 4 * length ws" for ws
    by (induction ws) (simp_all add: word_bytes_def)
  ultimately show ?thesis by (simp add: sha256_def)
qed

lemma int_base16_hexdigest_sha256:
  "int_base16 (hexdigest (sha256 bs)) = Inr (be_value 0 (sha256 bs))"
proof -
  have "sha256 bs \<noteq> []" using length_sha256 [of bs] by auto
  then have "hexdigest (sha256 bs) \<noteq> []"
    by (cases "sha256 bs") (simp_all add: hexdigest_def)
  then show ?thesis by (simp add: int_base16_def int16_from_hexdigest)
qed

lemma encode_utf8_ok: "encodable word \<Longrightarrow> \<exists>bs. encode_utf8 word = Inr bs"
proof (induction word)
  case Nil
  then show ?case by simp
next
  case (Cons c cs)
  then have "\<not> (0xD800 \<le> c \<and> c \<le> 0xDFFF)" "encodable cs" by (simp_all add: encodable_def)
  then obtain bs where "encode_utf8 cs = Inr bs" "\<exists>b. utf8_char c = Inr b"
    using Cons.IH by (auto simp: utf8_char_def)
  then show ?case by auto
qed

lemma encode_utf8_surrogate:
  "\<not> encodable word \<Longrightarrow> encode_utf8 word = Inl UnicodeEncodeError"
proof (induction word)
  case Nil
  then show ?case by (simp add: encodable_def)
next
  case (Cons c cs)
  show ?case
  proof (cases "0xD800 \<le> c \<and> c \<le> 0xDFFF")
    case True
    then have "utf8_char c = Inl UnicodeEncodeError" by (simp add: utf8_char_def)
    then show ?thesis by simp
  next
    case False
    with Cons.prems have "\<not> encodable cs" by (simp add: encodable_def)
    then have "encode_utf8 cs = Inl UnicodeEncodeError" by (rule Cons.IH)
    moreover have "\<exists>b. utf8_char c = Inr b" using False by (auto simp: utf8_char_def)
    ultimately show ?thesis by auto
  qed
qed

text \<open>
  C9 (as amended).  For every string without surrogate code points and every
  \<open>vocab_size > 0\<close>, \<open>hash_trick\<close> returns an integer, exactly one, and it lies in
  \<open>[0, vocab_size)\<close>.  The model is a function of the word and the vocabulary size
  alone, through the SHA-256 digest, so equal arguments give equal indices.
\<close>

theorem hash_trick_range:
  assumes "encodable word" and "0 < vocab_size"
  shows "\<exists>!i. hash_trick word vocab_size = Inr i \<and> 0 \<le> i \<and> i < vocab_size"
proof -
  from encode_utf8_ok [OF assms(1)] obtain bs where bs: "encode_utf8 word = Inr bs" by blast
  have "hash_trick word vocab_size = Inr (be_value 0 (sha256 bs) mod vocab_size)"
    using assms(2) by (simp add: hash_trick_def bs int_base16_hexdigest_sha256)
  moreover have "0 \<le> be_value 0 (sha256 bs) mod vocab_size"
    "be_value 0 (sha256 bs) mod vocab_size < vocab_size"
    using assms(2) by simp_all
  ultimately show ?thesis by auto
qed

theorem hash_trick_range_witness:
  "encodable [104, 233, 8364, 66376]
   \<and> (\<exists>!i. hash_trick [104, 233, 8364, 66376] 1000 = Inr i \<and> 0 \<le> i \<and> i < 1000)"
proof -
  have e: "encodable [104, 233, 8364, 66376]" by (simp add: encodable_def)
  have v: "(0::int) < 1000" by simp
  from hash_trick_range [OF e v] e show ?thesis by blast
qed

text \<open>
  The claim C9 as stated, for every string, fails: the one-character string of the lone
  surrogate U+D800 cannot be encoded, and \<open>hash_trick\<close> raises.
\<close>

theorem hash_trick_range_counterexample:
  "hash_trick [55296] 10 = Inl UnicodeEncodeError"
  by (simp add: hash_trick_def utf8_char_def)

section \<open>Copies of a state\<close>

text \<open>
  C10.  \<open>copy_state\<close> returns \<^verbatim>\<open>None\<close> for every input that is neither a tensor, a
  dictionary nor a list: an integer, a float, a string, a boolean, a tuple and \<^verbatim>\<open>None\<close>
  itself, also where they are nested in a state dictionary.  A dictionary is copied to a
  dictionary with the same keys in the same order and the copies of its values, a list to
  a list of the same length of the copies of its elements.
\<close>

theorem copy_state_structure:
  "((\<forall>t. state \<noteq> Tensor t) \<and> (\<forall>kvs. state \<noteq> Dict kvs) \<and> (\<forall>vs. state \<noteq> List vs)
      \<longrightarrow> copy_state state device dtype = NoneVal)
   \<and> copy_state (IntVal i) device dtype = NoneVal
   \<and> copy_state (FloatVal x) device dtype = NoneVal
   \<and> copy_state (StrVal str) device dtype = NoneVal
   \<and> copy_state (BoolVal b) device dtype = NoneVal
   \<and> copy_state (Tuple vs) device dtype = NoneVal
   \<and> copy_state NoneVal device dtype = NoneVal
   \<and> (\<exists>kvs'. copy_state (Dict kvs) device dtype = Dict kvs'
          \<and> map fst kvs' = map fst kvs
          \<and> map snd kvs' = map (\<lambda>v. copy_state v device dtype) (map snd kvs))
   \<and> (\<exists>vs'. copy_state (List vs) device dtype = List vs'
          \<and> length vs' = length vs
          \<and> (\<forall>j<length vs. vs' ! j = copy_state (vs ! j) device dtype))"
proof -
  have other: "(\<forall>t. state \<noteq> Tensor t) \<and> (\<forall>kvs. state \<noteq> Dict kvs) \<and> (\<forall>vs. state \<noteq> List vs)
      \<longrightarrow> copy_state state device dtype = NoneVal"
    by (cases state) simp_all
  have fst: "map fst (map (\<lambda>(k, v). (k, copy_state v device dtype)) kvs) = map fst kvs"
    by (induction kvs) auto
  have snd: "map snd (map (\<lambda>(k, v). (k, copy_state v device dtype)) kvs)
      = map (\<lambda>v. copy_state v device dtype) (map snd kvs)"
    by (induction kvs) auto
  have dict: "\<exists>kvs'. copy_state (Dict kvs) device dtype = Dict kvs'
          \<and> map fst kvs' = map fst kvs
          \<and> map snd kvs' = map (\<lambda>v. copy_state v device dtype) (map snd kvs)"
    using fst snd by simp
  have list: "\<exists>vs'. copy_state (List vs) device dtype = List vs'
          \<and> length vs' = length vs
          \<and> (\<forall>j<length vs. vs' ! j = copy_state (vs ! j) device dtype)"
    by simp
  from other dict list show ?thesis by simp
qed

theorem copy_state_structure_witness:
  "copy_state (Dict [(''step'', IntVal 3), (''lr'', FloatVal (1/2)), (''name'', StrVal [109]),
                     (''extra'', List [NoneVal, BoolVal True, Tuple [IntVal 1]])]) ''cpu'' None
     = Dict [(''step'', NoneVal), (''lr'', NoneVal), (''name'', NoneVal),
             (''extra'', List [NoneVal, NoneVal, NoneVal])]"
  using copy_state_structure [of "IntVal 3 :: string py_value" "''cpu''" None]
  by simp

end
